theory Spec2Isabelle
  imports Complex_Main "HOL-Library.Multiset"
begin

section \<open>Bass fretboard trainer: pitch table, quiz session and hit test\<close>

text \<open>
  The development follows the application source (\<^verbatim>\<open>App\<close> and \<^verbatim>\<open>Fretboard\<close>).
  JavaScript numbers that only ever hold integers (MIDI pitches, string and fret
  indices) are modelled as \<^typ>\<open>int\<close> or \<^typ>\<open>nat\<close>; pointer coordinates, board
  positions and time stamps are modelled as \<^typ>\<open>real\<close>, so the rounding of
  floating-point arithmetic is left out. Reading an array out of range gives
  \<^verbatim>\<open>undefined\<close> in JavaScript, which is \<^term>\<open>None\<close> here.
\<close>

subsection \<open>JavaScript helpers\<close>

text \<open>\<^verbatim>\<open>xs[i]\<close>: \<^verbatim>\<open>undefined\<close> outside \<open>0 .. length - 1\<close>.\<close>

definition js_index :: "'a list \<Rightarrow> int \<Rightarrow> 'a option" where
  "js_index xs i = (if 0 \<le> i \<and> i < int (length xs) then Some (xs ! nat i) else None)"

text \<open>\<^verbatim>\<open>a % b\<close> on integers: the remainder takes the sign of the dividend.\<close>

definition js_rem :: "int \<Rightarrow> int \<Rightarrow> int" where
  "js_rem a b = (if 0 \<le> a then \<bar>a\<bar> mod \<bar>b\<bar> else - (\<bar>a\<bar> mod \<bar>b\<bar>))"

text \<open>Decimal rendering of an integer inside a template literal.\<close>

fun show_nat :: "nat \<Rightarrow> string" where
  "show_nat n =
     (if n < 10 then [''0123456789'' ! n]
      else show_nat (n div 10) @ [''0123456789'' ! (n mod 10)])"

declare show_nat.simps [simp del]

definition show_int :: "int \<Rightarrow> string" where
  "show_int i = (if i < 0 then CHR ''-'' # show_nat (nat (- i)) else show_nat (nat i))"

subsection \<open>Pitch table and note names\<close>

datatype StringCount = Four | Five | Six

fun count_of :: "StringCount \<Rightarrow> nat" where
  "count_of Four = 4"
| "count_of Five = 5"
| "count_of Six = 6"

record Target =
  stringIndex :: int
  fret :: int

fun OPEN_MIDIS :: "StringCount \<Rightarrow> int list" where
  "OPEN_MIDIS Four = [28, 33, 38, 43]"
| "OPEN_MIDIS Five = [23, 28, 33, 38, 43]"
| "OPEN_MIDIS Six = [23, 28, 33, 38, 43, 48]"

definition NOTE_NAMES_SHARP :: "string list" where
  "NOTE_NAMES_SHARP =
     [''C'', ''C#'', ''D'', ''D#'', ''E'', ''F'', ''F#'', ''G'', ''G#'', ''A'', ''A#'', ''B'']"

definition midiToNameOctave :: "int \<Rightarrow> string" where
  "midiToNameOctave midi =
     (let name = (case js_index NOTE_NAMES_SHARP (js_rem midi 12) of
                    Some n \<Rightarrow> n | None \<Rightarrow> ''undefined'');
          octave = midi div 12 - 1
      in name @ show_int octave)"

subsection \<open>Reachable pitches\<close>

text \<open>\<^verbatim>\<open>Set.prototype.add\<close>; a JavaScript set keeps its elements in insertion order.\<close>

definition set_add :: "int list \<Rightarrow> int \<Rightarrow> int list" where
  "set_add s v = (if v \<in> set s then s else s @ [v])"

text \<open>
  \<^verbatim>\<open>possibleMidis\<close>: for every string \<open>i\<close> and every fret \<open>f = 0 .. frets\<close> the pitch
  \<open>open + f\<close> is added to a set, and the set is turned into an array.
\<close>

definition possibleMidis :: "StringCount \<Rightarrow> nat \<Rightarrow> int list" where
  "possibleMidis sc frts =
     fold (\<lambda>i s. let open_midi = OPEN_MIDIS sc ! i
                  in fold (\<lambda>f s. set_add s (open_midi + int f)) [0..<Suc frts] s)
          [0..<count_of sc] []"

subsection \<open>Shuffling\<close>

text \<open>
  The results of the future calls of \<^verbatim>\<open>Math.random()\<close>, in call order.
  \<^verbatim>\<open>Math.random\<close> promises a number in \<open>[0, 1)\<close>.
\<close>

type_synonym random = "nat \<Rightarrow> real"

definition valid_random :: "random \<Rightarrow> bool" where
  "valid_random rnd = (\<forall>k. 0 \<le> rnd k \<and> rnd k < 1)"

text \<open>
  The loop of \<^verbatim>\<open>shuffle\<close>, for \<open>i\<close> counting down to 1, with
  \<open>j = \<lfloor>random * (i + 1)\<rfloor>\<close>. With a valid random source \<open>j \<le> i < length a\<close>, so
  both array accesses are in range.
\<close>

fun shuffle_loop :: "nat \<Rightarrow> random \<Rightarrow> 'a list \<Rightarrow> 'a list \<times> random" where
  "shuffle_loop i rnd a =
     (if 0 < i then
        let j = nat \<lfloor>rnd 0 * real (i + 1)\<rfloor>;
            tmp = a ! i;
            a1 = a[i := a ! j];
            a2 = a1[j := tmp]
        in shuffle_loop (i - 1) (\<lambda>k. rnd (Suc k)) a2
      else (a, rnd))"

declare shuffle_loop.simps [simp del]

definition shuffle :: "'a list \<Rightarrow> random \<Rightarrow> 'a list \<times> random" where
  "shuffle arr rnd = shuffle_loop (length arr - 1) rnd arr"

subsection \<open>The quiz session\<close>

datatype outcome = Correct | Incorrect

text \<open>What a hit lets the user hear and see: the played note, the shake, the red overlay.\<close>

datatype signal = PlayMidi "int option" | Shake | ShowDamage

text \<open>
  The state of \<^verbatim>\<open>App\<close> that the quiz uses. \<open>frameQueue\<close> holds the callbacks given to
  \<^verbatim>\<open>requestAnimationFrame\<close> that have not run yet; each one calls the \<^verbatim>\<open>nextTarget\<close>
  of the render in which it was created, so it is recorded by the \<^verbatim>\<open>possibleMidis\<close>
  that \<^verbatim>\<open>nextTarget\<close> closed over. \<open>rng\<close> holds the random numbers still to come.
  State updates take effect when the source requests them, in that order; the batching
  of renders is left out.
\<close>

record session =
  stringCount :: StringCount
  frets :: nat
  soundOn :: bool
  currentMidi :: "int option"
  deck :: "int list"
  lastHitTs :: real
  pendingNext :: bool
  frameQueue :: "int list list"
  rng :: random

definition nextTarget :: "int list \<Rightarrow> session \<Rightarrow> session" where
  "nextTarget possible s =
     (let (d, rnd) = (if deck s = [] then shuffle possible (rng s) else (deck s, rng s))
      in case d of
           [] \<Rightarrow> s\<lparr>currentMidi := None, deck := [], rng := rnd\<rparr>
         | head # rest \<Rightarrow> s\<lparr>currentMidi := Some head, deck := rest, rng := rnd\<rparr>)"

text \<open>
  \<^verbatim>\<open>onHit\<close> at time \<open>nowTs\<close> (the value of \<^verbatim>\<open>performance.now()\<close>). The result is the
  new state, the branch taken (\<^term>\<open>None\<close> for the two early returns) and the signals.
  The pitch of the hit is \<^verbatim>\<open>OPEN_MIDIS[stringCount][hit.stringIndex] + hit.fret\<close>;
  \<^verbatim>\<open>undefined + fret\<close> is \<^verbatim>\<open>NaN\<close>, which equals no pitch; it is \<^term>\<open>None\<close> here.
\<close>

definition hit_midi :: "StringCount \<Rightarrow> Target \<Rightarrow> int option" where
  "hit_midi sc hit =
     map_option (\<lambda>open_midi. open_midi + fret hit) (js_index (OPEN_MIDIS sc) (stringIndex hit))"

definition onHit :: "session \<Rightarrow> real \<Rightarrow> Target \<Rightarrow> session \<times> outcome option \<times> signal list" where
  "onHit s nowTs hit =
     (if nowTs - lastHitTs s < 60 then (s, None, [])
      else
        let s1 = s\<lparr>lastHitTs := nowTs\<rparr> in
        case currentMidi s of
          None \<Rightarrow> (s1, None, [])
        | Some cur \<Rightarrow>
            let midi = hit_midi (stringCount s) hit;
                sound = (if soundOn s then [PlayMidi midi] else [])
            in if midi = Some cur then
                 (if \<not> pendingNext s
                  then s1\<lparr>pendingNext := True,
                          frameQueue := frameQueue s @ [possibleMidis (stringCount s) (frets s)]\<rparr>
                  else s1,
                  Some Correct, sound)
               else (s1, Some Incorrect, sound @ [Shake, ShowDamage]))"

text \<open>The browser runs the oldest pending animation-frame callback.\<close>

definition animationFrame :: "session \<Rightarrow> session" where
  "animationFrame s =
     (case frameQueue s of
        [] \<Rightarrow> s
      | possible # q \<Rightarrow> (nextTarget possible s)\<lparr>pendingNext := False, frameQueue := q\<rparr>)"

text \<open>The effect that asks for a target whenever there is none.\<close>

definition targetEffect :: "session \<Rightarrow> session" where
  "targetEffect s =
     (if currentMidi s = None then nextTarget (possibleMidis (stringCount s) (frets s)) s else s)"

text \<open>
  A change of the string count or the fret count: \<^verbatim>\<open>possibleMidis\<close> is recomputed, and
  the effects that depend on it install a shuffled deck and clear the target. Setting
  both to their present values renders nothing anew.
\<close>

definition configure :: "StringCount \<Rightarrow> nat \<Rightarrow> session \<Rightarrow> session" where
  "configure sc frts s =
     (if sc = stringCount s \<and> frts = frets s then s
      else
        let (d, rnd) = shuffle (possibleMidis sc frts) (rng s)
        in s\<lparr>stringCount := sc, frets := frts, deck := d, currentMidi := None, rng := rnd\<rparr>)"

text \<open>
  The state after the first render and its effects, in source order: the deck is
  shuffled and the target cleared, the target effect runs, and the mount effect calls
  \<^verbatim>\<open>nextTarget\<close> once more.
\<close>

definition mount :: "StringCount \<Rightarrow> nat \<Rightarrow> bool \<Rightarrow> random \<Rightarrow> session" where
  "mount sc frts sound rnd =
     (let possible = possibleMidis sc frts;
          (d, rnd1) = shuffle possible rnd;
          s1 = \<lparr>stringCount = sc, frets = frts, soundOn = sound, currentMidi = None,
                deck = d, lastHitTs = 0, pendingNext = False, frameQueue = [], rng = rnd1\<rparr>
      in nextTarget possible (targetEffect s1))"

datatype event =
    Hit real Target
  | AnimationFrame
  | TargetEffect
  | Configure StringCount nat
  | SetSound bool

fun step :: "session \<Rightarrow> event \<Rightarrow> session" where
  "step s (Hit nowTs hit) = fst (onHit s nowTs hit)"
| "step s AnimationFrame = animationFrame s"
| "step s TargetEffect = targetEffect s"
| "step s (Configure sc frts) = configure sc frts s"
| "step s (SetSound b) = s\<lparr>soundOn := b\<rparr>"

fun is_hit :: "event \<Rightarrow> bool" where
  "is_hit (Hit nowTs hit) = True"
| "is_hit e = False"

definition run :: "session \<Rightarrow> event list \<Rightarrow> session" where
  "run s es = foldl step s es"

text \<open>The targets shown by \<open>n\<close> calls of \<^verbatim>\<open>nextTarget\<close> in a row, and the state after them.\<close>

fun advance_n :: "nat \<Rightarrow> int list \<Rightarrow> session \<Rightarrow> int option list \<times> session" where
  "advance_n 0 possible s = ([], s)"
| "advance_n (Suc n) possible s =
     (let s1 = nextTarget possible s;
          (ts, s2) = advance_n n possible s1
      in (currentMidi s1 # ts, s2))"

text \<open>Along a run: how many hits were judged correct, and how many scheduled advances ran.\<close>

fun corrects :: "session \<Rightarrow> event list \<Rightarrow> nat" where
  "corrects s [] = 0"
| "corrects s (e # es) =
     (case e of
        Hit nowTs hit \<Rightarrow> (if fst (snd (onHit s nowTs hit)) = Some Correct then 1 else 0)
      | _ \<Rightarrow> 0) + corrects (step s e) es"

fun frame_advances :: "session \<Rightarrow> event list \<Rightarrow> nat" where
  "frame_advances s [] = 0"
| "frame_advances s (e # es) =
     (case e of
        AnimationFrame \<Rightarrow> (if frameQueue s = [] then 0 else 1)
      | _ \<Rightarrow> 0) + frame_advances (step s e) es"

subsection \<open>Board geometry and the hit test\<close>

record DOMPoint =
  point_x :: real
  point_y :: real

definition width :: real where "width = 1600"
definition heightPerString :: real where "heightPerString = 44"
definition paddingY :: real where "paddingY = 24"
definition nutWidth :: real where "nutWidth = 10"
definition scaleLength :: real where "scaleLength = 1000"
definition openPad :: real where "openPad = 18"
definition FRET_WIDTH :: real where "FRET_WIDTH = 5"
definition marginRight :: real where "marginRight = 30"

definition boardHeight :: "nat \<Rightarrow> real" where
  "boardHeight sc = real sc * heightPerString + paddingY * 2"

definition boardTopY :: "bool \<Rightarrow> real" where
  "boardTopY binding = (if binding then 10 else 0)"

text \<open>
  \<^verbatim>\<open>fretXs\<close>: the equal-tempered distances \<open>L - L / 2\<^sup>n\<^sup>/\<^sup>1\<^sup>2\<close>, rescaled so that the last
  fret lands at \<open>width - marginRight\<close>. (With no fret at all the source divides by
  zero and its single entry is \<^verbatim>\<open>NaN\<close>; the hit test never reads it.)
\<close>

definition fretXs :: "nat \<Rightarrow> real list" where
  "fretXs frts =
     (let xs = 0 # map (\<lambda>n. scaleLength - scaleLength / (2 powr (real n / 12))) [1..<Suc frts];
          full = last xs;
          scale = (width - marginRight - nutWidth) / full
      in map (\<lambda>x. nutWidth + x * scale) xs)"

text \<open>\<^verbatim>\<open>stringYs\<close>: index 0 is the bottom line; \<^verbatim>\<open>stringCount - 1 || 1\<close> avoids a zero divisor.\<close>

definition stringYs :: "nat \<Rightarrow> bool \<Rightarrow> real list" where
  "stringYs sc binding =
     (let usable = boardHeight sc - paddingY * 2
      in map (\<lambda>i. boardTopY binding + paddingY
                     + (usable * (real sc - 1 - real i))
                       / (if real sc - 1 = 0 then 1 else real sc - 1))
           [0..<sc])"

text \<open>
  The \<^verbatim>\<open>forEach\<close> of \<^verbatim>\<open>pickHit\<close>: the pair is \<^verbatim>\<open>(minDy, stringIndex)\<close>, with
  \<^term>\<open>None\<close> for the initial \<^verbatim>\<open>Infinity\<close>.
\<close>

definition nearest_step :: "real \<Rightarrow> real \<times> nat \<Rightarrow> real option \<times> nat \<Rightarrow> real option \<times> nat" where
  "nearest_step spy yi acc =
     (let dy = \<bar>spy - fst yi\<bar>
      in if (case fst acc of None \<Rightarrow> True | Some minDy \<Rightarrow> dy < minDy)
         then (Some dy, snd yi) else acc)"

definition nearest_string :: "real list \<Rightarrow> real \<Rightarrow> nat" where
  "nearest_string ys spy = snd (fold (nearest_step spy) (zip ys [0..<length ys]) (None, 0))"

definition pad :: real where
  "pad = max 3 (real_of_int \<lceil>FRET_WIDTH / 2\<rceil> + 1)"

text \<open>
  The clickable interval \<open>[x0, x1)\<close> of fret \<open>n\<close> as the loop body computes it; there is
  none when a boundary is missing (every comparison with \<^verbatim>\<open>undefined\<close> is false).
\<close>

definition fret_region :: "real list \<Rightarrow> nat \<Rightarrow> (real \<times> real) option" where
  "fret_region xs n =
     (case (js_index xs (int n - 1), js_index xs (int n)) of
        (Some x0, Some x1) \<Rightarrow>
          if x1 - x0 > pad * 2 then Some (x0 + pad, x1 - pad) else Some (x0, x1)
      | _ \<Rightarrow> None)"

definition in_region :: "real list \<Rightarrow> nat \<Rightarrow> real \<Rightarrow> bool" where
  "in_region xs n spx =
     (case fret_region xs n of
        Some (x0, x1) \<Rightarrow> spx \<ge> x0 \<and> spx < x1
      | None \<Rightarrow> False)"

text \<open>The loop over \<open>n = 1 .. frets\<close>, leaving at the first match; \<open>-1\<close> when there is none.\<close>

function fret_loop :: "real list \<Rightarrow> nat \<Rightarrow> real \<Rightarrow> nat \<Rightarrow> int" where
  "fret_loop xs frts spx n =
     (if n \<le> frts then
        (if in_region xs n spx then int n else fret_loop xs frts spx (n + 1))
      else - 1)"
  by pat_completeness auto
termination
  by (relation "measure (\<lambda>(xs, frts, spx, n). Suc frts - n)") auto

declare fret_loop.simps [simp del]

definition pickHit :: "real list \<Rightarrow> real list \<Rightarrow> nat \<Rightarrow> DOMPoint \<Rightarrow> Target option" where
  "pickHit ys xs frts sp =
     (let si = int (nearest_string ys (point_y sp));
          firstFretX = (case js_index xs 1 of Some v \<Rightarrow> v | None \<Rightarrow> nutWidth + 60);
          openGrace = min 24 ((firstFretX - nutWidth) * 0.25)
      in if point_x sp \<le> nutWidth + openPad + openGrace
         then Some \<lparr>stringIndex = si, fret = 0\<rparr>
         else
           let f = fret_loop xs frts (point_x sp) 1
           in if f = - 1 then None else Some \<lparr>stringIndex = si, fret = f\<rparr>)"

text \<open>\<^verbatim>\<open>pickHit\<close> inside a \<^verbatim>\<open>Fretboard\<close> with the given properties.\<close>

definition Fretboard_pickHit :: "nat \<Rightarrow> nat \<Rightarrow> bool \<Rightarrow> DOMPoint \<Rightarrow> Target option" where
  "Fretboard_pickHit sc frts binding sp = pickHit (stringYs sc binding) (fretXs frts) frts sp"

subsection \<open>Invariants of the session\<close>

text \<open>At most one animation-frame callback waits, and the guard flag says whether one does.\<close>

definition guard_inv :: "session \<Rightarrow> bool" where
  "guard_inv s = (length (frameQueue s) \<le> 1 \<and> (pendingNext s \<longleftrightarrow> frameQueue s \<noteq> []))"

text \<open>
  The deck holds reachable pitches only. A waiting callback whose \<^verbatim>\<open>nextTarget\<close> is
  that of an earlier configuration never finds the deck empty: a configuration change
  installs a full deck, and nothing but that callback can draw a second card before it
  has run.
\<close>

definition deck_inv :: "session \<Rightarrow> bool" where
  "deck_inv s =
     (valid_random (rng s) \<and> guard_inv s
      \<and> distinct (deck s)
      \<and> set (deck s) \<subseteq> set (possibleMidis (stringCount s) (frets s))
      \<and> (\<forall>q \<in> set (frameQueue s). q \<noteq> possibleMidis (stringCount s) (frets s) \<longrightarrow>
            (if currentMidi s = None then 2 else 1) \<le> length (deck s)))"

subsection \<open>A sample state\<close>

text \<open>A four-string, twelve-fret session that asks for pitch 40 (E2).\<close>

definition sample_session :: session where
  "sample_session =
     \<lparr>stringCount = Four, frets = 12, soundOn = True, currentMidi = Some 40,
      deck = [41, 29], lastHitTs = 0, pendingNext = False, frameQueue = [],
      rng = (\<lambda>k. 0)\<rparr>"

subsection \<open>Note names\<close>

lemma js_rem_nonneg: "0 \<le> a \<Longrightarrow> 0 < b \<Longrightarrow> js_rem a b = a mod b"
  by (simp add: js_rem_def)

lemma length_NOTE_NAMES_SHARP: "length NOTE_NAMES_SHARP = 12"
  by (simp add: NOTE_NAMES_SHARP_def)

text \<open>
  Claim C9. For a pitch \<open>midi \<ge> 0\<close> the name is the entry \<open>midi mod 12\<close> of the
  twelve-entry sharp table followed by the decimal octave number
  \<open>\<lfloor>midi / 12\<rfloor> - 1\<close>; no entry of the table contains a flat sign, and pitch 40 is
  named E2.
\<close>

theorem midiToNameOctave_spec:
  "(0 \<le> midi \<longrightarrow>
      midiToNameOctave midi =
        NOTE_NAMES_SHARP ! nat (midi mod 12) @ show_int (\<lfloor>real_of_int midi / 12\<rfloor> - 1))
   \<and> length NOTE_NAMES_SHARP = 12
   \<and> (\<forall>n \<in> set NOTE_NAMES_SHARP. CHR ''b'' \<notin> set n)
   \<and> midiToNameOctave 40 = ''E2''"
proof (intro conjI impI)
  assume nonneg: "0 \<le> midi"
  have r: "js_rem midi 12 = midi mod 12"
    using nonneg by (simp add: js_rem_nonneg)
  have range: "0 \<le> midi mod 12" "midi mod 12 < 12"
    by simp_all
  have idx: "js_index NOTE_NAMES_SHARP (midi mod 12) = Some (NOTE_NAMES_SHARP ! nat (midi mod 12))"
    using range by (simp add: js_index_def length_NOTE_NAMES_SHARP)
  have fl: "\<lfloor>real_of_int midi / 12\<rfloor> = midi div 12"
    by (simp add: floor_divide_of_int_eq [of midi 12, simplified])
  show "midiToNameOctave midi =
        NOTE_NAMES_SHARP ! nat (midi mod 12) @ show_int (\<lfloor>real_of_int midi / 12\<rfloor> - 1)"
    by (simp add: midiToNameOctave_def r idx fl)
next
  show "length NOTE_NAMES_SHARP = 12"
    by (rule length_NOTE_NAMES_SHARP)
next
  show "\<forall>n \<in> set NOTE_NAMES_SHARP. CHR ''b'' \<notin> set n"
    by (simp add: NOTE_NAMES_SHARP_def)
next
  show "midiToNameOctave 40 = ''E2''"
    by (simp add: midiToNameOctave_def js_rem_def js_index_def NOTE_NAMES_SHARP_def
        show_int_def show_nat.simps)
qed

theorem midiToNameOctave_spec_witness:
  "(0::int) \<le> 61 \<and> midiToNameOctave 61 = ''C#4''"
proof -
  have "midiToNameOctave 61 =
        NOTE_NAMES_SHARP ! nat (61 mod 12) @ show_int (\<lfloor>real_of_int 61 / 12\<rfloor> - 1)"
    using midiToNameOctave_spec [of 61] by simp
  then show ?thesis
    by (simp add: NOTE_NAMES_SHARP_def show_int_def show_nat.simps)
qed

subsection \<open>Shuffling keeps the cards; the reachable pitches\<close>

lemma random_index_le:
  assumes "0 \<le> r" "r < 1"
  shows "nat \<lfloor>r * real (i + 1)\<rfloor> \<le> i"
proof -
  have "r * real (i + 1) < real (i + 1)"
    using assms by simp
  then have "\<lfloor>r * real (i + 1)\<rfloor> < int (i + 1)"
    by (simp add: floor_less_iff)
  then show ?thesis by simp
qed

lemma valid_random_shift: "valid_random rnd \<Longrightarrow> valid_random (\<lambda>k. rnd (Suc k))"
  by (simp add: valid_random_def)

lemma shuffle_loop_mset:
  "valid_random rnd \<Longrightarrow> i < length a \<Longrightarrow> mset (fst (shuffle_loop i rnd a)) = mset a"
proof (induction i rnd a rule: shuffle_loop.induct)
  case (1 i rnd a)
  show ?case
  proof (cases "0 < i")
    case False
    then show ?thesis by (simp add: shuffle_loop.simps)
  next
    case True
    define j where "j = nat \<lfloor>rnd 0 * real (i + 1)\<rfloor>"
    define a2 where "a2 = (a[i := a ! j])[j := a ! i]"
    have "j \<le> i"
      unfolding j_def using "1.prems"(1) by (intro random_index_le) (simp_all add: valid_random_def)
    with "1.prems"(2) have jlen: "j < length a" by simp
    have swap: "mset a2 = mset a"
      unfolding a2_def using mset_swap [OF jlen "1.prems"(2)] by simp
    have len: "i - 1 < length a2"
      using "1.prems"(2) by (simp add: a2_def)
    have "mset (fst (shuffle_loop (i - 1) (\<lambda>k. rnd (Suc k)) a2)) = mset a2"
      using "1.IH" [OF True refl refl refl refl valid_random_shift [OF "1.prems"(1)]] len
      by (simp add: a2_def j_def)
    moreover have "shuffle_loop i rnd a = shuffle_loop (i - 1) (\<lambda>k. rnd (Suc k)) a2"
      using True by (subst shuffle_loop.simps) (simp add: a2_def j_def Let_def)
    ultimately show ?thesis using swap by simp
  qed
qed

lemma shuffle_loop_valid:
  "valid_random rnd \<Longrightarrow> valid_random (snd (shuffle_loop i rnd a))"
proof (induction i rnd a rule: shuffle_loop.induct)
  case (1 i rnd a)
  show ?case
  proof (cases "0 < i")
    case False
    then show ?thesis using "1.prems" by (simp add: shuffle_loop.simps)
  next
    case True
    have "valid_random (snd (shuffle_loop (i - 1) (\<lambda>k. rnd (Suc k))
            ((a[i := a ! nat \<lfloor>rnd 0 * real (i + 1)\<rfloor>])[nat \<lfloor>rnd 0 * real (i + 1)\<rfloor> := a ! i])))"
      using "1.IH" [OF True refl refl refl refl valid_random_shift [OF "1.prems"]] .
    then show ?thesis
      using True by (subst shuffle_loop.simps) (simp add: Let_def)
  qed
qed

lemma shuffle_mset: "valid_random rnd \<Longrightarrow> mset (fst (shuffle arr rnd)) = mset arr"
proof (cases arr)
  case Nil
  then show ?thesis by (simp add: shuffle_def shuffle_loop.simps)
next
  case (Cons x xs)
  assume "valid_random rnd"
  then show ?thesis
    unfolding shuffle_def using Cons by (intro shuffle_loop_mset) simp_all
qed

lemma shuffle_valid: "valid_random rnd \<Longrightarrow> valid_random (snd (shuffle arr rnd))"
  by (simp add: shuffle_def shuffle_loop_valid)

lemma shuffle_set: "valid_random rnd \<Longrightarrow> set (fst (shuffle arr rnd)) = set arr"
  using shuffle_mset [of rnd arr] by (metis set_mset_mset)

lemma shuffle_length: "valid_random rnd \<Longrightarrow> length (fst (shuffle arr rnd)) = length arr"
  using shuffle_mset [of rnd arr] by (metis size_mset)

lemma shuffle_distinct: "valid_random rnd \<Longrightarrow> distinct arr \<Longrightarrow> distinct (fst (shuffle arr rnd))"
  using shuffle_mset [of rnd arr] by (metis mset_eq_imp_distinct_iff)

lemma set_add_set: "set (set_add s v) = insert v (set s)"
  by (auto simp: set_add_def)

lemma set_add_distinct: "distinct s \<Longrightarrow> distinct (set_add s v)"
  by (simp add: set_add_def)

lemma fold_set_add_set: "set (fold (\<lambda>f s. set_add s (g f)) fs s) = set s \<union> g ` set fs"
  by (induction fs arbitrary: s) (auto simp: set_add_set)

lemma fold_set_add_distinct: "distinct s \<Longrightarrow> distinct (fold (\<lambda>f s. set_add s (g f)) fs s)"
  by (induction fs arbitrary: s) (simp_all add: set_add_distinct)

lemma fold_strings_set:
  "set (fold (\<lambda>i s. let open_midi = tab ! i in fold (\<lambda>f s. set_add s (open_midi + int f)) fs s) is s)
   = set s \<union> {tab ! i + int f | i f. i \<in> set is \<and> f \<in> set fs}"
  by (induction "is" arbitrary: s) (auto simp: fold_set_add_set Let_def)

lemma fold_strings_distinct:
  "distinct s \<Longrightarrow>
   distinct (fold (\<lambda>i s. let open_midi = tab ! i in fold (\<lambda>f s. set_add s (open_midi + int f)) fs s) is s)"
  by (induction "is" arbitrary: s) (simp_all add: fold_set_add_distinct Let_def)

lemma set_possibleMidis:
  "set (possibleMidis sc frts) = {OPEN_MIDIS sc ! i + int f | i f. i < count_of sc \<and> f \<le> frts}"
proof -
  have "set [0..<Suc frts] = {f. f \<le> frts}" "set [0..<count_of sc] = {i. i < count_of sc}"
    by auto
  then show ?thesis
    unfolding possibleMidis_def fold_strings_set by simp
qed

lemma distinct_possibleMidis: "distinct (possibleMidis sc frts)"
  unfolding possibleMidis_def by (rule fold_strings_distinct) simp

lemma length_OPEN_MIDIS: "length (OPEN_MIDIS sc) = count_of sc"
  by (cases sc) simp_all

lemma length_possibleMidis_ge2: "2 \<le> length (possibleMidis sc frts)"
proof -
  let ?a = "OPEN_MIDIS sc ! 0" and ?b = "OPEN_MIDIS sc ! 1"
  have ne: "?a \<noteq> ?b" by (cases sc) simp_all
  have "?a + int 0 \<in> set (possibleMidis sc frts)" "?b + int 0 \<in> set (possibleMidis sc frts)"
    unfolding set_possibleMidis by (cases sc; fastforce)+
  then have "{?a, ?b} \<subseteq> set (possibleMidis sc frts)" by simp
  then have "card {?a, ?b} \<le> card (set (possibleMidis sc frts))"
    by (intro card_mono) simp_all
  then show ?thesis
    using ne by (simp add: distinct_card [OF distinct_possibleMidis])
qed

subsection \<open>The branches of onHit; fields that the operations leave alone\<close>

lemma onHit_ignored:
  "nowTs - lastHitTs s < 60 \<Longrightarrow> onHit s nowTs hit = (s, None, [])"
  by (simp add: onHit_def)

lemma onHit_no_target:
  "\<not> nowTs - lastHitTs s < 60 \<Longrightarrow> currentMidi s = None \<Longrightarrow>
   onHit s nowTs hit = (s\<lparr>lastHitTs := nowTs\<rparr>, None, [])"
  by (simp add: onHit_def)

lemma onHit_correct:
  "\<not> nowTs - lastHitTs s < 60 \<Longrightarrow> currentMidi s = Some cur \<Longrightarrow>
   hit_midi (stringCount s) hit = Some cur \<Longrightarrow>
   onHit s nowTs hit =
     (if \<not> pendingNext s
      then s\<lparr>lastHitTs := nowTs, pendingNext := True,
             frameQueue := frameQueue s @ [possibleMidis (stringCount s) (frets s)]\<rparr>
      else s\<lparr>lastHitTs := nowTs\<rparr>,
      Some Correct,
      if soundOn s then [PlayMidi (Some cur)] else [])"
  by (simp add: onHit_def)

lemma onHit_incorrect:
  "\<not> nowTs - lastHitTs s < 60 \<Longrightarrow> currentMidi s = Some cur \<Longrightarrow>
   hit_midi (stringCount s) hit \<noteq> Some cur \<Longrightarrow>
   onHit s nowTs hit =
     (s\<lparr>lastHitTs := nowTs\<rparr>, Some Incorrect,
      (if soundOn s then [PlayMidi (hit_midi (stringCount s) hit)] else []) @ [Shake, ShowDamage])"
  by (simp add: onHit_def)

lemma hit_midi_eq:
  "hit_midi sc hit = Some cur \<longleftrightarrow>
   (\<exists>open_midi. js_index (OPEN_MIDIS sc) (stringIndex hit) = Some open_midi \<and> open_midi + fret hit = cur)"
  by (auto simp: hit_midi_def)

lemma onHit_outcome:
  "fst (snd (onHit s nowTs hit)) =
     (if nowTs - lastHitTs s < 60 then None
      else case currentMidi s of
             None \<Rightarrow> None
           | Some cur \<Rightarrow> if hit_midi (stringCount s) hit = Some cur then Some Correct else Some Incorrect)"
  by (simp add: onHit_def Let_def split: option.splits)


lemma nextTarget_fields [simp]:
  "stringCount (nextTarget possible s) = stringCount s"
  "frets (nextTarget possible s) = frets s"
  "soundOn (nextTarget possible s) = soundOn s"
  "lastHitTs (nextTarget possible s) = lastHitTs s"
  "pendingNext (nextTarget possible s) = pendingNext s"
  "frameQueue (nextTarget possible s) = frameQueue s"
  by (simp_all add: nextTarget_def split: prod.splits list.splits)

lemma targetEffect_fields [simp]:
  "stringCount (targetEffect s) = stringCount s"
  "frets (targetEffect s) = frets s"
  "soundOn (targetEffect s) = soundOn s"
  "lastHitTs (targetEffect s) = lastHitTs s"
  "pendingNext (targetEffect s) = pendingNext s"
  "frameQueue (targetEffect s) = frameQueue s"
  by (simp_all add: targetEffect_def)

lemma configure_fields [simp]:
  "soundOn (configure sc frts s) = soundOn s"
  "lastHitTs (configure sc frts s) = lastHitTs s"
  "pendingNext (configure sc frts s) = pendingNext s"
  "frameQueue (configure sc frts s) = frameQueue s"
  "stringCount (configure sc frts s) = sc"
  "frets (configure sc frts s) = frts"
  by (simp_all add: configure_def split: prod.splits)

lemma animationFrame_fields [simp]:
  "stringCount (animationFrame s) = stringCount s"
  "frets (animationFrame s) = frets s"
  "soundOn (animationFrame s) = soundOn s"
  "lastHitTs (animationFrame s) = lastHitTs s"
  by (simp_all add: animationFrame_def split: list.splits)

lemma onHit_fields [simp]:
  "stringCount (fst (onHit s nowTs hit)) = stringCount s"
  "frets (fst (onHit s nowTs hit)) = frets s"
  "soundOn (fst (onHit s nowTs hit)) = soundOn s"
  "currentMidi (fst (onHit s nowTs hit)) = currentMidi s"
  "deck (fst (onHit s nowTs hit)) = deck s"
  "rng (fst (onHit s nowTs hit)) = rng s"
  by (simp_all add: onHit_def Let_def split: option.splits)

lemma mount_fields [simp]:
  "stringCount (mount sc frts sound rnd) = sc"
  "frets (mount sc frts sound rnd) = frts"
  "soundOn (mount sc frts sound rnd) = sound"
  "lastHitTs (mount sc frts sound rnd) = 0"
  "pendingNext (mount sc frts sound rnd) = False"
  "frameQueue (mount sc frts sound rnd) = []"
  by (simp_all add: mount_def Let_def split: prod.splits)

lemma run_Nil [simp]: "run s [] = s"
  by (simp add: run_def)

lemma run_Cons [simp]: "run s (e # es) = run (step s e) es"
  by (simp add: run_def)

lemma run_append: "run s (es @ es') = run (run s es) es'"
  by (simp add: run_def)

lemma step_not_hit_lastHitTs: "\<not> is_hit e \<Longrightarrow> lastHitTs (step s e) = lastHitTs s"
  by (cases e) simp_all

lemma run_not_hit_lastHitTs:
  "\<forall>e \<in> set es. \<not> is_hit e \<Longrightarrow> lastHitTs (run s es) = lastHitTs s"
  by (induction es arbitrary: s) (simp_all add: step_not_hit_lastHitTs)

subsection \<open>Judging a hit\<close>

text \<open>
  Claim C1. A hit that is not debounced, against a current target, is judged by its
  pitch alone: it is Correct exactly when the open pitch of its string plus its fret
  equals the target pitch, and Incorrect otherwise. With four strings (open pitches
  28, 33, 38, 43) and target pitch 40, string 1 fret 7 and string 2 fret 2 are both
  Correct.
\<close>

theorem onHit_pitch_based:
  "OPEN_MIDIS Four = [28, 33, 38, 43]
   \<and> (\<not> nowTs - lastHitTs s < 60 \<and> currentMidi s = Some cur \<longrightarrow>
        (fst (snd (onHit s nowTs hit)) = Some Correct \<longleftrightarrow>
           (\<exists>open_midi. js_index (OPEN_MIDIS (stringCount s)) (stringIndex hit) = Some open_midi
              \<and> open_midi + fret hit = cur))
        \<and> (fst (snd (onHit s nowTs hit)) = Some Incorrect \<longleftrightarrow>
           \<not> (\<exists>open_midi. js_index (OPEN_MIDIS (stringCount s)) (stringIndex hit) = Some open_midi
              \<and> open_midi + fret hit = cur)))
   \<and> (\<not> nowTs - lastHitTs s < 60 \<and> stringCount s = Four \<and> currentMidi s = Some 40 \<longrightarrow>
        fst (snd (onHit s nowTs \<lparr>stringIndex = 1, fret = 7\<rparr>)) = Some Correct
        \<and> fst (snd (onHit s nowTs \<lparr>stringIndex = 2, fret = 2\<rparr>)) = Some Correct)"
proof (intro conjI impI)
  show "OPEN_MIDIS Four = [28, 33, 38, 43]" by simp
next
  assume a: "\<not> nowTs - lastHitTs s < 60 \<and> currentMidi s = Some cur"
  then show "fst (snd (onHit s nowTs hit)) = Some Correct \<longleftrightarrow>
      (\<exists>open_midi. js_index (OPEN_MIDIS (stringCount s)) (stringIndex hit) = Some open_midi
         \<and> open_midi + fret hit = cur)"
    by (simp add: onHit_outcome hit_midi_eq [symmetric])
  from a show "fst (snd (onHit s nowTs hit)) = Some Incorrect \<longleftrightarrow>
      \<not> (\<exists>open_midi. js_index (OPEN_MIDIS (stringCount s)) (stringIndex hit) = Some open_midi
         \<and> open_midi + fret hit = cur)"
    by (simp add: onHit_outcome hit_midi_eq [symmetric])
next
  assume a: "\<not> nowTs - lastHitTs s < 60 \<and> stringCount s = Four \<and> currentMidi s = Some 40"
  then show "fst (snd (onHit s nowTs \<lparr>stringIndex = 1, fret = 7\<rparr>)) = Some Correct"
    by (simp add: onHit_outcome hit_midi_def js_index_def)
  from a show "fst (snd (onHit s nowTs \<lparr>stringIndex = 2, fret = 2\<rparr>)) = Some Correct"
    by (simp add: onHit_outcome hit_midi_def js_index_def)
qed

theorem onHit_pitch_based_witness:
  "\<not> 100 - lastHitTs sample_session < 60
   \<and> stringCount sample_session = Four
   \<and> currentMidi sample_session = Some 40
   \<and> fst (snd (onHit sample_session 100 \<lparr>stringIndex = 1, fret = 7\<rparr>)) = Some Correct
   \<and> fst (snd (onHit sample_session 100 \<lparr>stringIndex = 2, fret = 2\<rparr>)) = Some Correct
   \<and> fst (snd (onHit sample_session 100 \<lparr>stringIndex = 2, fret = 3\<rparr>)) = Some Incorrect
   \<and> fst (snd (onHit sample_session 100 \<lparr>stringIndex = 4, fret = 2\<rparr>)) = Some Incorrect"
proof -
  have h: "\<not> 100 - lastHitTs sample_session < 60" "stringCount sample_session = Four"
    "currentMidi sample_session = Some 40"
    by (simp_all add: sample_session_def)
  have bad: "\<not> (\<exists>open_midi. js_index (OPEN_MIDIS Four) 2 = Some open_midi \<and> open_midi + 3 = 40)"
    "\<not> (\<exists>open_midi. js_index (OPEN_MIDIS Four) 4 = Some open_midi \<and> open_midi + 2 = 40)"
    by (simp_all add: js_index_def)
  show ?thesis
    using h bad
      onHit_pitch_based [of 100 sample_session 40 "\<lparr>stringIndex = 2, fret = 3\<rparr>"]
      onHit_pitch_based [of 100 sample_session 40 "\<lparr>stringIndex = 4, fret = 2\<rparr>"]
    by simp
qed

text \<open>
  Claim C3. Once a hit has been accepted at time \<open>t1\<close>, a hit at a time \<open>t2\<close> with
  \<open>t2 - t1 < 60\<close> is ignored whatever it points at: no outcome, no signal and the state
  as it was, also when animation frames, effects or configuration changes came in
  between. Of two such calls in a row only the first changes the state.
\<close>

theorem onHit_debounce:
  assumes "\<not> t1 - lastHitTs s < 60"
    and "t2 - t1 < 60"
    and "\<forall>e \<in> set es. \<not> is_hit e"
  shows "onHit (run (fst (onHit s t1 h1)) es) t2 h2 = (run (fst (onHit s t1 h1)) es, None, [])
         \<and> run s [Hit t1 h1, Hit t2 h2] = run s [Hit t1 h1]
         \<and> lastHitTs (fst (onHit s t1 h1)) = t1"
proof -
  let ?s1 = "fst (onHit s t1 h1)"
  have last1: "lastHitTs ?s1 = t1"
    using assms(1) by (simp add: onHit_def Let_def split: option.splits)
  have "lastHitTs (run ?s1 es) = t1"
    using assms(3) last1 by (simp add: run_not_hit_lastHitTs)
  with assms(2) have ignored: "onHit (run ?s1 es) t2 h2 = (run ?s1 es, None, [])"
    by (simp add: onHit_ignored)
  have "onHit ?s1 t2 h2 = (?s1, None, [])"
    using last1 assms(2) by (simp add: onHit_ignored)
  then have "run s [Hit t1 h1, Hit t2 h2] = run s [Hit t1 h1]"
    by simp
  with ignored last1 show ?thesis by simp
qed

theorem onHit_debounce_witness:
  "\<not> 100 - lastHitTs sample_session < 60
   \<and> (159 :: real) - 100 < 60
   \<and> \<not> is_hit AnimationFrame
   \<and> onHit (run (fst (onHit sample_session 100 \<lparr>stringIndex = 1, fret = 7\<rparr>)) [AnimationFrame])
        159 \<lparr>stringIndex = 0, fret = 0\<rparr>
      = (run (fst (onHit sample_session 100 \<lparr>stringIndex = 1, fret = 7\<rparr>)) [AnimationFrame], None, [])"
proof -
  have h1: "\<not> 100 - lastHitTs sample_session < 60"
    by (simp add: sample_session_def)
  have h2: "(159 :: real) - 100 < 60" by simp
  have h3: "\<forall>e \<in> set [AnimationFrame]. \<not> is_hit e" by simp
  show ?thesis
    using onHit_debounce [OF h1 h2 h3] h1 by simp
qed

text \<open>
  Claim C7. An accepted hit whose pitch differs from the current target is Incorrect.
  It leaves the target, the deck, the guard and the pending callbacks as they were;
  the state changes in the time stamp of the last accepted hit only, and what the
  caller gets is the feedback: the shake and the red overlay (after the played note
  when sound is on).
\<close>

theorem onHit_incorrect_frame:
  assumes "\<not> nowTs - lastHitTs s < 60"
    and "currentMidi s = Some cur"
    and "hit_midi (stringCount s) hit \<noteq> Some cur"
  shows "onHit s nowTs hit =
           (s\<lparr>lastHitTs := nowTs\<rparr>, Some Incorrect,
            (if soundOn s then [PlayMidi (hit_midi (stringCount s) hit)] else [])
              @ [Shake, ShowDamage])
         \<and> currentMidi (fst (onHit s nowTs hit)) = currentMidi s
         \<and> deck (fst (onHit s nowTs hit)) = deck s
         \<and> pendingNext (fst (onHit s nowTs hit)) = pendingNext s
         \<and> frameQueue (fst (onHit s nowTs hit)) = frameQueue s
         \<and> rng (fst (onHit s nowTs hit)) = rng s"
  using assms by (simp add: onHit_incorrect)

theorem onHit_incorrect_frame_witness:
  "\<not> 100 - lastHitTs sample_session < 60
   \<and> currentMidi sample_session = Some 40
   \<and> hit_midi (stringCount sample_session) \<lparr>stringIndex = 0, fret = 5\<rparr> \<noteq> Some 40
   \<and> onHit sample_session 100 \<lparr>stringIndex = 0, fret = 5\<rparr> =
       (sample_session\<lparr>lastHitTs := 100\<rparr>, Some Incorrect, [PlayMidi (Some 33), Shake, ShowDamage])
   \<and> deck (fst (onHit sample_session 100 \<lparr>stringIndex = 0, fret = 5\<rparr>)) = [41, 29]"
proof -
  have h1: "\<not> 100 - lastHitTs sample_session < 60"
    and h2: "currentMidi sample_session = Some 40"
    and h3: "hit_midi (stringCount sample_session) \<lparr>stringIndex = 0, fret = 5\<rparr> \<noteq> Some 40"
    and m: "hit_midi (stringCount sample_session) \<lparr>stringIndex = 0, fret = 5\<rparr> = Some 33"
    and d: "deck sample_session = [41, 29]" "soundOn sample_session"
    by (simp_all add: sample_session_def hit_midi_def js_index_def)
  show ?thesis
    using onHit_incorrect_frame [OF h1 h2 h3] h1 h2 h3 m d by simp
qed

subsection \<open>Hits without a target; the single-flight guard\<close>

lemma configure_changed:
  "sc \<noteq> stringCount s \<or> frts \<noteq> frets s \<Longrightarrow>
   configure sc frts s =
     s\<lparr>stringCount := sc, frets := frts,
       deck := fst (shuffle (possibleMidis sc frts) (rng s)),
       currentMidi := None,
       rng := snd (shuffle (possibleMidis sc frts) (rng s))\<rparr>"
  by (auto simp: configure_def split: prod.splits)

text \<open>
  Claim C6, as the code has it. Without a current target \<^verbatim>\<open>onHit\<close> returns early:
  there is no outcome at all, neither Correct nor Incorrect, no sound and no feedback
  signal, no advance is scheduled, and the target and the deck stay as they are. A hit
  outside the debounce window still records its time stamp. Nothing fails.
\<close>

theorem onHit_without_target:
  assumes "currentMidi s = None"
  shows "onHit s nowTs hit =
           (if nowTs - lastHitTs s < 60 then s else s\<lparr>lastHitTs := nowTs\<rparr>, None, [])"
  using assms by (simp add: onHit_ignored onHit_no_target)

theorem onHit_without_target_witness:
  "currentMidi (configure Six 24 sample_session) = None
   \<and> onHit (configure Six 24 sample_session) 75 \<lparr>stringIndex = 5, fret = 24\<rparr> =
       ((configure Six 24 sample_session)\<lparr>lastHitTs := 75\<rparr>, None, [])"
proof -
  have none: "currentMidi (configure Six 24 sample_session) = None"
    by (subst configure_changed) (simp_all add: sample_session_def)
  have "lastHitTs (configure Six 24 sample_session) = 0"
    by (simp add: sample_session_def)
  then show ?thesis
    using onHit_without_target [OF none, of 75 "\<lparr>stringIndex = 5, fret = 24\<rparr>"] none by simp
qed

text \<open>
  The claim as the specification states it fails: right after a change to five strings
  there is no target, and a hit at 100 ms yields no outcome and no feedback signal,
  where the specification promises Incorrect.
\<close>

theorem onHit_without_target_counterexample:
  "currentMidi (configure Five 12 sample_session) = None
   \<and> fst (snd (onHit (configure Five 12 sample_session) 100 \<lparr>stringIndex = 0, fret = 0\<rparr>)) = None
   \<and> fst (snd (onHit (configure Five 12 sample_session) 100 \<lparr>stringIndex = 0, fret = 0\<rparr>))
       \<noteq> Some Incorrect
   \<and> snd (snd (onHit (configure Five 12 sample_session) 100 \<lparr>stringIndex = 0, fret = 0\<rparr>)) = []"
proof -
  have none: "currentMidi (configure Five 12 sample_session) = None"
    by (subst configure_changed) (simp_all add: sample_session_def)
  then show ?thesis
    by (simp add: onHit_outcome onHit_def)
qed

lemma guard_inv_onHit: "guard_inv s \<Longrightarrow> guard_inv (fst (onHit s nowTs hit))"
  by (auto simp: guard_inv_def onHit_def Let_def split: option.splits)

lemma guard_inv_animationFrame: "guard_inv s \<Longrightarrow> guard_inv (animationFrame s)"
  by (auto simp: guard_inv_def animationFrame_def split: list.splits)

lemma guard_inv_step: "guard_inv s \<Longrightarrow> guard_inv (step s e)"
  by (cases e) (simp_all add: guard_inv_onHit guard_inv_animationFrame, simp_all add: guard_inv_def)

lemma guard_inv_run: "guard_inv s \<Longrightarrow> guard_inv (run s es)"
  by (induction es arbitrary: s) (simp_all add: guard_inv_step)

lemma guard_inv_mount: "guard_inv (mount sc frts sound rnd)"
  by (simp add: guard_inv_def)

lemma frameQueue_step:
  assumes "guard_inv s"
  shows "(case e of AnimationFrame \<Rightarrow> (if frameQueue s = [] then 0 else 1) | _ \<Rightarrow> 0)
           + length (frameQueue (step s e))
         \<le> (case e of Hit nowTs hit \<Rightarrow> (if fst (snd (onHit s nowTs hit)) = Some Correct then 1 else 0)
             | _ \<Rightarrow> 0)
           + length (frameQueue s)"
proof (cases e)
  case (Hit nowTs hit)
  then show ?thesis
    by (auto simp: onHit_def Let_def split: option.splits)
next
  case AnimationFrame
  then show ?thesis
    by (auto simp: animationFrame_def split: list.splits)
qed simp_all

lemma advances_le_corrects:
  "guard_inv s \<Longrightarrow>
   frame_advances s es + length (frameQueue (run s es)) \<le> corrects s es + length (frameQueue s)"
proof (induction es arbitrary: s)
  case Nil
  then show ?case by simp
next
  case (Cons e es)
  have "frame_advances (step s e) es + length (frameQueue (run (step s e) es))
        \<le> corrects (step s e) es + length (frameQueue (step s e))"
    using Cons.IH [OF guard_inv_step [OF Cons.prems]] .
  moreover note frameQueue_step [OF Cons.prems, of e]
  ultimately show ?case by simp
qed

lemma pending_cleared_by_frame:
  assumes "guard_inv s" "pendingNext s" "\<not> pendingNext (step s e)"
  shows "e = AnimationFrame
         \<and> (\<exists>possible. frameQueue s = [possible]
              \<and> step s e = (nextTarget possible s)\<lparr>pendingNext := False, frameQueue := []\<rparr>)"
proof (cases e)
  case (Hit nowTs hit)
  with assms show ?thesis
    by (auto simp: onHit_def Let_def split: option.splits if_splits)
next
  case AnimationFrame
  from assms(1,2) obtain possible where "frameQueue s = [possible]"
    by (cases "frameQueue s") (auto simp: guard_inv_def)
  with AnimationFrame show ?thesis
    by (simp add: animationFrame_def)
qed (use assms in simp_all)

lemma onHit_pending_queue:
  "pendingNext s \<Longrightarrow> frameQueue (fst (onHit s nowTs hit)) = frameQueue s"
  by (simp add: onHit_def Let_def split: option.splits)

text \<open>
  Claim C4. In every state reached from the first render, at most one scheduled advance
  is waiting, and the guard flag is set exactly while one waits. A further hit while
  the guard is set, Correct or not, schedules nothing. Only the animation-frame
  callback clears the guard, and it does so after its call of \<^verbatim>\<open>nextTarget\<close>. Hence the
  scheduled advances that have run or are waiting never outnumber the Correct
  outcomes.
\<close>

theorem single_flight_guard:
  assumes "s = run (mount sc frts sound rnd) es"
  shows "length (frameQueue s) \<le> 1
         \<and> (pendingNext s \<longleftrightarrow> frameQueue s \<noteq> [])
         \<and> (pendingNext s \<longrightarrow>
              (\<forall>nowTs hit. frameQueue (fst (onHit s nowTs hit)) = frameQueue s
                 \<and> pendingNext (fst (onHit s nowTs hit))))
         \<and> (\<forall>e. pendingNext s \<and> \<not> pendingNext (step s e) \<longrightarrow>
              e = AnimationFrame
              \<and> (\<exists>possible. frameQueue s = [possible]
                   \<and> step s e = (nextTarget possible s)\<lparr>pendingNext := False, frameQueue := []\<rparr>))
         \<and> frame_advances (mount sc frts sound rnd) es + length (frameQueue s)
             \<le> corrects (mount sc frts sound rnd) es"
proof -
  have inv: "guard_inv s"
    unfolding assms by (intro guard_inv_run guard_inv_mount)
  have count: "frame_advances (mount sc frts sound rnd) es + length (frameQueue s)
               \<le> corrects (mount sc frts sound rnd) es"
    using advances_le_corrects [OF guard_inv_mount, of sc frts sound rnd es]
    by (simp add: assms)
  have keep: "pendingNext s \<longrightarrow>
      (\<forall>nowTs hit. frameQueue (fst (onHit s nowTs hit)) = frameQueue s
         \<and> pendingNext (fst (onHit s nowTs hit)))"
    by (simp add: onHit_def Let_def split: option.splits)
  show ?thesis
    using inv count keep pending_cleared_by_frame [OF inv]
    by (simp add: guard_inv_def)
qed

lemma possibleMidis_Four_0: "possibleMidis Four 0 = [28, 33, 38, 43]"
  by (simp add: possibleMidis_def set_add_def upt_rec)

lemma shuffle_example:
  "shuffle [28, 33, 38, 43 :: int] (\<lambda>k. 1 / 2) = ([28, 43, 33, 38], \<lambda>k. 1 / 2)"
  by (simp add: shuffle_def shuffle_loop.simps)

lemma mount_example:
  "mount Four 0 True (\<lambda>k. 1 / 2) =
     \<lparr>stringCount = Four, frets = 0, soundOn = True, currentMidi = Some 43,
      deck = [33, 38], lastHitTs = 0, pendingNext = False, frameQueue = [],
      rng = (\<lambda>k. 1 / 2)\<rparr>"
  by (simp add: mount_def possibleMidis_Four_0 shuffle_example targetEffect_def nextTarget_def)

theorem single_flight_guard_witness:
  "corrects (mount Four 0 True (\<lambda>k. 1 / 2))
      [Hit 100 \<lparr>stringIndex = 3, fret = 0\<rparr>, Hit 200 \<lparr>stringIndex = 3, fret = 0\<rparr>] = 2
   \<and> frame_advances (mount Four 0 True (\<lambda>k. 1 / 2))
      [Hit 100 \<lparr>stringIndex = 3, fret = 0\<rparr>, Hit 200 \<lparr>stringIndex = 3, fret = 0\<rparr>] = 0
   \<and> length (frameQueue (run (mount Four 0 True (\<lambda>k. 1 / 2))
      [Hit 100 \<lparr>stringIndex = 3, fret = 0\<rparr>, Hit 200 \<lparr>stringIndex = 3, fret = 0\<rparr>])) = 1
   \<and> pendingNext (run (mount Four 0 True (\<lambda>k. 1 / 2))
      [Hit 100 \<lparr>stringIndex = 3, fret = 0\<rparr>, Hit 200 \<lparr>stringIndex = 3, fret = 0\<rparr>])"
proof -
  let ?m = "mount Four 0 True (\<lambda>k. 1 / 2)"
  let ?h = "\<lparr>stringIndex = 3, fret = 0\<rparr>"
  let ?es = "[Hit 100 ?h, Hit 200 ?h]"
  have first: "onHit ?m 100 ?h =
      (?m\<lparr>lastHitTs := 100, pendingNext := True, frameQueue := [[28, 33, 38, 43]]\<rparr>,
       Some Correct, [PlayMidi (Some 43)])"
    by (subst onHit_correct [where cur = 43])
      (simp_all add: mount_example hit_midi_def js_index_def possibleMidis_Four_0)
  have second: "fst (snd (onHit (?m\<lparr>lastHitTs := 100, pendingNext := True,
      frameQueue := [[28, 33, 38, 43]]\<rparr>) 200 ?h)) = Some Correct"
    by (simp add: onHit_outcome mount_example hit_midi_def js_index_def)
  have c: "corrects ?m ?es = 2" and f: "frame_advances ?m ?es = 0"
    by (simp_all add: first second)
  have "frame_advances ?m ?es + length (frameQueue (run ?m ?es)) \<le> corrects ?m ?es"
    and "length (frameQueue (run ?m ?es)) \<le> 1"
    and "pendingNext (run ?m ?es) \<longleftrightarrow> frameQueue (run ?m ?es) \<noteq> []"
    using single_flight_guard [OF refl, of Four 0 True "\<lambda>k. 1 / 2" ?es] by blast+
  moreover have "frameQueue (run ?m ?es) \<noteq> []"
    by (simp add: first onHit_pending_queue)
  ultimately show ?thesis
    using c f by (cases "frameQueue (run ?m ?es)") simp_all
qed

subsection \<open>The deck holds reachable pitches only\<close>

lemma nextTarget_nonempty:
  "deck s \<noteq> [] \<Longrightarrow>
   nextTarget possible s = s\<lparr>currentMidi := Some (hd (deck s)), deck := tl (deck s)\<rparr>"
  by (cases "deck s") (simp_all add: nextTarget_def)

lemma nextTarget_empty:
  "deck s = [] \<Longrightarrow>
   nextTarget possible s =
     s\<lparr>currentMidi := (case fst (shuffle possible (rng s)) of [] \<Rightarrow> None | h # r \<Rightarrow> Some h),
       deck := tl (fst (shuffle possible (rng s))),
       rng := snd (shuffle possible (rng s))\<rparr>"
  by (simp add: nextTarget_def split: prod.splits list.splits)

lemma nextTarget_current_core:
  assumes "valid_random (rng s)" "distinct (deck s)"
    and "set (deck s) \<subseteq> set (possibleMidis (stringCount s) (frets s))"
  shows "valid_random (rng (nextTarget (possibleMidis (stringCount s) (frets s)) s))
         \<and> distinct (deck (nextTarget (possibleMidis (stringCount s) (frets s)) s))
         \<and> set (deck (nextTarget (possibleMidis (stringCount s) (frets s)) s))
             \<subseteq> set (possibleMidis (stringCount s) (frets s))"
proof (cases "deck s = []")
  case True
  let ?pm = "possibleMidis (stringCount s) (frets s)"
  let ?d = "fst (shuffle ?pm (rng s))"
  have "distinct ?d" "set ?d = set ?pm"
    using assms(1) by (simp_all add: shuffle_distinct shuffle_set distinct_possibleMidis)
  then have "distinct (tl ?d)" "set (tl ?d) \<subseteq> set ?pm"
    by (simp_all add: distinct_tl) (metis list.set_sel(2) subsetI tl_Nil)
  then show ?thesis
    using True assms(1) by (simp add: nextTarget_empty shuffle_valid)
next
  case False
  have "set (tl (deck s)) \<subseteq> set (deck s)"
    using False by (auto dest: list.set_sel(2))
  then show ?thesis
    using False assms by (auto simp: nextTarget_nonempty distinct_tl)
qed

lemma nextTarget_nonempty_core:
  assumes "deck s \<noteq> []" "valid_random (rng s)" "distinct (deck s)"
    and "set (deck s) \<subseteq> set (possibleMidis (stringCount s) (frets s))"
  shows "valid_random (rng (nextTarget possible s))
         \<and> distinct (deck (nextTarget possible s))
         \<and> set (deck (nextTarget possible s)) \<subseteq> set (possibleMidis (stringCount s) (frets s))"
proof -
  have "set (tl (deck s)) \<subseteq> set (deck s)"
    using assms(1) by (auto dest: list.set_sel(2))
  then show ?thesis
    using assms by (auto simp: nextTarget_nonempty distinct_tl)
qed

lemma deck_inv_onHit: "deck_inv s \<Longrightarrow> deck_inv (fst (onHit s nowTs hit))"
  unfolding deck_inv_def
  by (intro conjI guard_inv_onHit)
    (auto simp: onHit_def Let_def guard_inv_def split: option.splits if_splits)

lemma deck_inv_animationFrame:
  assumes "deck_inv s"
  shows "deck_inv (animationFrame s)"
proof (cases "frameQueue s")
  case Nil
  with assms show ?thesis by (simp add: animationFrame_def)
next
  case (Cons q rest)
  let ?pm = "possibleMidis (stringCount s) (frets s)"
  from assms have g: "guard_inv s" and core: "valid_random (rng s)" "distinct (deck s)"
    "set (deck s) \<subseteq> set ?pm"
    and stale: "q \<noteq> ?pm \<longrightarrow> deck s \<noteq> []"
    using Cons by (auto simp: deck_inv_def split: if_splits)
  from g Cons have rest: "rest = []" by (simp add: guard_inv_def)
  have "valid_random (rng (nextTarget q s)) \<and> distinct (deck (nextTarget q s))
        \<and> set (deck (nextTarget q s)) \<subseteq> set ?pm"
  proof (cases "q = ?pm")
    case True
    then show ?thesis using nextTarget_current_core [OF core] by simp
  next
    case False
    with stale have "deck s \<noteq> []" by simp
    then show ?thesis using nextTarget_nonempty_core [OF _ core] by simp
  qed
  then show ?thesis
    using Cons rest by (simp add: deck_inv_def guard_inv_def animationFrame_def)
qed

lemma deck_inv_targetEffect:
  assumes "deck_inv s"
  shows "deck_inv (targetEffect s)"
proof (cases "currentMidi s = None")
  case False
  with assms show ?thesis by (auto simp: targetEffect_def)
next
  case True
  let ?pm = "possibleMidis (stringCount s) (frets s)"
  from assms have g: "guard_inv s" and core: "valid_random (rng s)" "distinct (deck s)"
    "set (deck s) \<subseteq> set ?pm"
    and stale: "\<forall>q \<in> set (frameQueue s). q \<noteq> ?pm \<longrightarrow> 2 \<le> length (deck s)"
    using True by (auto simp: deck_inv_def)
  have g': "guard_inv (nextTarget ?pm s)"
    using g by (simp add: guard_inv_def)
  have stale': "\<forall>q \<in> set (frameQueue s). q \<noteq> ?pm \<longrightarrow>
      (if currentMidi (nextTarget ?pm s) = None then 2 else 1) \<le> length (deck (nextTarget ?pm s))"
  proof (intro ballI impI)
    fix q assume "q \<in> set (frameQueue s)" "q \<noteq> ?pm"
    with stale have two: "2 \<le> length (deck s)" by blast
    then have "deck s \<noteq> []" by auto
    then show "(if currentMidi (nextTarget ?pm s) = None then 2 else 1)
               \<le> length (deck (nextTarget ?pm s))"
      using two by (simp add: nextTarget_nonempty)
  qed
  show ?thesis
    using True g' stale' nextTarget_current_core [OF core]
    by (simp add: deck_inv_def targetEffect_def)
qed

lemma deck_inv_configure:
  assumes "deck_inv s"
  shows "deck_inv (configure sc frts s)"
proof (cases "sc \<noteq> stringCount s \<or> frts \<noteq> frets s")
  case False
  with assms show ?thesis by (simp add: configure_def)
next
  case True
  let ?pm = "possibleMidis sc frts"
  from assms have g: "guard_inv s" and v: "valid_random (rng s)"
    by (simp_all add: deck_inv_def)
  have "2 \<le> length (fst (shuffle ?pm (rng s)))"
    using v by (simp add: shuffle_length length_possibleMidis_ge2)
  then show ?thesis
    using g v by (simp add: configure_changed [OF True] deck_inv_def guard_inv_def
        shuffle_valid shuffle_distinct shuffle_set distinct_possibleMidis)
qed

lemma deck_inv_step: "deck_inv s \<Longrightarrow> deck_inv (step s e)"
proof (cases e)
  case (SetSound b)
  assume "deck_inv s"
  then show ?thesis
    using SetSound by (simp add: deck_inv_def guard_inv_def)
qed (simp_all add: deck_inv_onHit deck_inv_animationFrame deck_inv_targetEffect deck_inv_configure)

lemma deck_inv_run: "deck_inv s \<Longrightarrow> deck_inv (run s es)"
  by (induction es arbitrary: s) (simp_all add: deck_inv_step)

lemma deck_inv_mount:
  assumes "valid_random rnd"
  shows "deck_inv (mount sc frts sound rnd)"
proof -
  let ?pm = "possibleMidis sc frts"
  define s1 where "s1 = \<lparr>stringCount = sc, frets = frts, soundOn = sound, currentMidi = None,
    deck = fst (shuffle ?pm rnd), lastHitTs = 0, pendingNext = False, frameQueue = [],
    rng = snd (shuffle ?pm rnd)\<rparr>"
  have "deck_inv s1"
    using assms by (simp add: s1_def deck_inv_def guard_inv_def shuffle_valid shuffle_distinct
        shuffle_set distinct_possibleMidis)
  then have t: "deck_inv (targetEffect s1)"
    by (rule deck_inv_targetEffect)
  have pm: "possibleMidis (stringCount (targetEffect s1)) (frets (targetEffect s1)) = ?pm"
    by (simp add: s1_def)
  have q: "frameQueue (targetEffect s1) = []" "pendingNext (targetEffect s1) = False"
    by (simp_all add: s1_def)
  from t have core: "valid_random (rng (targetEffect s1))" "distinct (deck (targetEffect s1))"
    "set (deck (targetEffect s1)) \<subseteq> set (possibleMidis (stringCount (targetEffect s1)) (frets (targetEffect s1)))"
    by (simp_all add: deck_inv_def)
  have "deck_inv (nextTarget ?pm (targetEffect s1))"
    using nextTarget_current_core [OF core] q unfolding pm
    by (simp add: deck_inv_def guard_inv_def s1_def)
  moreover have "mount sc frts sound rnd = nextTarget ?pm (targetEffect s1)"
    by (simp add: mount_def s1_def Let_def case_prod_beta)
  ultimately show ?thesis by simp
qed

subsection \<open>A full cycle of the deck\<close>

lemma advance_n_take:
  "n \<le> length (deck s) \<Longrightarrow>
   fst (advance_n n possible s) = map Some (take n (deck s))
   \<and> deck (snd (advance_n n possible s)) = drop n (deck s)
   \<and> rng (snd (advance_n n possible s)) = rng s"
proof (induction n arbitrary: s)
  case 0
  then show ?case by simp
next
  case (Suc n)
  then obtain h r where d: "deck s = h # r" by (cases "deck s") auto
  let ?s1 = "s\<lparr>currentMidi := Some h, deck := r\<rparr>"
  have s1: "nextTarget possible s = ?s1"
    using d by (simp add: nextTarget_nonempty)
  have "n \<le> length (deck ?s1)" using Suc.prems d by simp
  from Suc.IH [OF this] show ?case
    using d by (simp add: s1 case_prod_beta)
qed

lemma advance_n_fresh_deck:
  "fst (advance_n (length (deck s)) possible s) = map Some (deck s)
   \<and> deck (snd (advance_n (length (deck s)) possible s)) = []
   \<and> rng (snd (advance_n (length (deck s)) possible s)) = rng s"
  using advance_n_take [of "length (deck s)" s possible] by simp

lemma advance_n_refill:
  assumes "deck s = []" "valid_random (rng s)"
  shows "fst (advance_n (length possible) possible s) = map Some (fst (shuffle possible (rng s)))
         \<and> deck (snd (advance_n (length possible) possible s)) = []
         \<and> rng (snd (advance_n (length possible) possible s)) = snd (shuffle possible (rng s))"
proof (cases possible)
  case Nil
  then show ?thesis
    using assms(1) by (simp add: shuffle_def shuffle_loop.simps)
next
  case (Cons p ps)
  let ?d = "fst (shuffle possible (rng s))"
  have len: "length ?d = Suc (length ps)"
    using assms(2) Cons by (simp add: shuffle_length)
  then obtain h r where d: "?d = h # r" by (cases ?d) auto
  let ?s1 = "s\<lparr>currentMidi := Some h, deck := r, rng := snd (shuffle possible (rng s))\<rparr>"
  have s1: "nextTarget possible s = ?s1"
    using assms(1) d by (simp add: nextTarget_empty)
  have r: "length (deck ?s1) = length ps"
    using len d by simp
  have n: "length possible = Suc (length ps)"
    using Cons by simp
  show ?thesis
    using advance_n_fresh_deck [of ?s1 possible] d r
    by (simp add: n s1 case_prod_beta)
qed

lemma mset_map_Some: "mset xs = mset ys \<Longrightarrow> mset (map Some xs) = mset (map Some ys)"
  by (metis mset_map)

lemma distinct_map_Some: "distinct xs \<Longrightarrow> distinct (map Some xs)"
  by (simp add: distinct_map)

lemma possibleMidis_Five_0: "possibleMidis Five 0 = [23, 28, 33, 38, 43]"
  by (simp add: possibleMidis_def set_add_def upt_rec)

lemma shuffle_example_five:
  "shuffle [23, 28, 33, 38, 43 :: int] (\<lambda>k. 1 / 2) = ([23, 38, 28, 43, 33], \<lambda>k. 1 / 2)"
  by (simp add: shuffle_def shuffle_loop.simps)

lemma mount_deck:
  assumes "valid_random rnd"
  shows "deck (mount sc frts sound rnd) = drop 2 (fst (shuffle (possibleMidis sc frts) rnd))
         \<and> currentMidi (mount sc frts sound rnd) = Some (fst (shuffle (possibleMidis sc frts) rnd) ! 1)
         \<and> rng (mount sc frts sound rnd) = snd (shuffle (possibleMidis sc frts) rnd)"
proof -
  let ?pm = "possibleMidis sc frts"
  let ?d = "fst (shuffle ?pm rnd)"
  have "2 \<le> length ?d"
    using assms by (simp add: shuffle_length length_possibleMidis_ge2)
  then obtain a b r where d: "?d = a # b # r"
    by (cases ?d; cases "tl ?d") auto
  show ?thesis
    using d by (simp add: mount_def Let_def case_prod_beta targetEffect_def nextTarget_def)
qed

text \<open>
  Claim C2, as the code has it. The reachable pitches \<open>possible\<close> of a session \<open>t\<close> are
  the distinct values \<open>open pitch of string i + f\<close> for every string \<open>i\<close> and every fret
  \<open>f \<le> frets\<close>. With a valid random source: when the deck of \<open>t\<close> is fresh (empty, so
  that the next \<^verbatim>\<open>nextTarget\<close> reshuffles, or a permutation of \<open>possible\<close>), then
  \<open>length possible\<close> calls of \<^verbatim>\<open>nextTarget\<close> in a row show every one of these pitches
  exactly once and leave the deck empty and the random source valid, so that the next
  window starts fresh again. \<^verbatim>\<open>nextTarget\<close> reshuffles exactly when it finds the deck
  empty: a non-empty deck only loses its head and no random number is drawn; an empty
  one is replaced by a permutation of \<open>possible\<close>. Besides that, the deck is replaced by
  a fresh permutation of the reachable pitches, empty or not and with no card drawn, on
  every change of the string count or the fret count, and at the first render, where
  two cards are then drawn at once. In every state reached from the first render, the
  cards of the deck are distinct reachable pitches of the current configuration.
\<close>

theorem deck_non_repetition:
  assumes "valid_random (rng t)"
    and "possible = possibleMidis (stringCount t) (frets t)"
    and "valid_random rnd"
    and "s = run (mount sc frts sound rnd) es"
  shows "set possible =
           {OPEN_MIDIS (stringCount t) ! i + int f | i f. i < count_of (stringCount t) \<and> f \<le> frets t}
         \<and> distinct possible
         \<and> (deck t = [] \<or> mset (deck t) = mset possible \<longrightarrow>
              set (fst (advance_n (length possible) possible t)) =
                Some ` {OPEN_MIDIS (stringCount t) ! i + int f | i f.
                          i < count_of (stringCount t) \<and> f \<le> frets t}
              \<and> distinct (fst (advance_n (length possible) possible t))
              \<and> mset (fst (advance_n (length possible) possible t)) = mset (map Some possible)
              \<and> deck (snd (advance_n (length possible) possible t)) = []
              \<and> valid_random (rng (snd (advance_n (length possible) possible t))))
         \<and> (deck t \<noteq> [] \<longrightarrow>
              nextTarget possible t = t\<lparr>currentMidi := Some (hd (deck t)), deck := tl (deck t)\<rparr>)
         \<and> (deck t = [] \<longrightarrow>
              mset (fst (shuffle possible (rng t))) = mset possible
              \<and> nextTarget possible t =
                  t\<lparr>currentMidi := Some (hd (fst (shuffle possible (rng t)))),
                    deck := tl (fst (shuffle possible (rng t))),
                    rng := snd (shuffle possible (rng t))\<rparr>)
         \<and> (sc' \<noteq> stringCount t \<or> frts' \<noteq> frets t \<longrightarrow>
              deck (configure sc' frts' t) = fst (shuffle (possibleMidis sc' frts') (rng t))
              \<and> mset (deck (configure sc' frts' t)) = mset (possibleMidis sc' frts')
              \<and> currentMidi (configure sc' frts' t) = None)
         \<and> mset (fst (shuffle (possibleMidis sc frts) rnd)) = mset (possibleMidis sc frts)
         \<and> deck (mount sc frts sound rnd) = drop 2 (fst (shuffle (possibleMidis sc frts) rnd))
         \<and> set (deck s) \<subseteq>
             {OPEN_MIDIS (stringCount s) ! i + int f | i f. i < count_of (stringCount s) \<and> f \<le> frets s}
         \<and> distinct (deck s)"
proof -
  let ?n = "length possible"
  let ?d = "fst (shuffle possible (rng t))"
  let ?R = "{OPEN_MIDIS (stringCount t) ! i + int f | i f. i < count_of (stringCount t) \<and> f \<le> frets t}"
  have sp: "set possible = ?R"
    unfolding assms(2) by (rule set_possibleMidis)
  have dp: "distinct possible"
    by (simp add: assms(2) distinct_possibleMidis)
  have perm: "mset ?d = mset possible"
    using assms(1) by (rule shuffle_mset)
  have window: "set (fst (advance_n ?n possible t)) = Some ` ?R
      \<and> distinct (fst (advance_n ?n possible t))
      \<and> mset (fst (advance_n ?n possible t)) = mset (map Some possible)
      \<and> deck (snd (advance_n ?n possible t)) = []
      \<and> valid_random (rng (snd (advance_n ?n possible t)))"
    if fresh: "deck t = [] \<or> mset (deck t) = mset possible"
  proof -
    have w: "mset (fst (advance_n ?n possible t)) = mset (map Some possible)
      \<and> distinct (fst (advance_n ?n possible t))
      \<and> deck (snd (advance_n ?n possible t)) = []
      \<and> valid_random (rng (snd (advance_n ?n possible t)))"
    proof (cases "deck t = []")
      case True
      have "distinct ?d"
        using perm dp by (metis mset_eq_imp_distinct_iff)
      then show ?thesis
        using advance_n_refill [OF True assms(1), of possible] perm assms(1)
        by (simp add: mset_map_Some distinct_map_Some shuffle_valid)
    next
      case False
      with fresh have m: "mset (deck t) = mset possible" by simp
      then have len: "length (deck t) = ?n" by (metis size_mset)
      have "distinct (deck t)"
        using m dp by (metis mset_eq_imp_distinct_iff)
      then show ?thesis
        using advance_n_fresh_deck [of t possible] m assms(1)
        by (simp add: len mset_map_Some distinct_map_Some)
    qed
    then have "set (fst (advance_n ?n possible t)) = set (map Some possible)"
      by (metis set_mset_mset)
    with w sp show ?thesis by simp
  qed
  have keep: "nextTarget possible t = t\<lparr>currentMidi := Some (hd (deck t)), deck := tl (deck t)\<rparr>"
    if "deck t \<noteq> []"
    using that by (rule nextTarget_nonempty)
  have refill: "nextTarget possible t =
      t\<lparr>currentMidi := Some (hd ?d), deck := tl ?d, rng := snd (shuffle possible (rng t))\<rparr>"
    if empty: "deck t = []"
  proof -
    have "2 \<le> length ?d"
      using assms(1) by (simp add: shuffle_length assms(2) length_possibleMidis_ge2)
    then obtain h r where "?d = h # r" by (cases ?d) auto
    then show ?thesis
      using empty by (simp add: nextTarget_empty)
  qed
  have conf: "deck (configure sc' frts' t) = fst (shuffle (possibleMidis sc' frts') (rng t))
      \<and> mset (deck (configure sc' frts' t)) = mset (possibleMidis sc' frts')
      \<and> currentMidi (configure sc' frts' t) = None"
    if "sc' \<noteq> stringCount t \<or> frts' \<noteq> frets t"
    using assms(1) by (simp add: configure_changed [OF that] shuffle_mset)
  have first: "mset (fst (shuffle (possibleMidis sc frts) rnd)) = mset (possibleMidis sc frts)"
    using assms(3) by (rule shuffle_mset)
  have md: "deck (mount sc frts sound rnd) = drop 2 (fst (shuffle (possibleMidis sc frts) rnd))"
    using mount_deck [OF assms(3)] by blast
  have "deck_inv s"
    unfolding assms(4) using assms(3) by (intro deck_inv_run deck_inv_mount)
  then have inv: "set (deck s) \<subseteq>
      {OPEN_MIDIS (stringCount s) ! i + int f | i f. i < count_of (stringCount s) \<and> f \<le> frets s}"
    "distinct (deck s)"
    by (simp_all add: deck_inv_def set_possibleMidis)
  show ?thesis
    using sp dp window keep refill perm conf first md inv by (intro conjI impI) blast+
qed

lemma run_example:
  "run (mount Four 0 True (\<lambda>k. 1 / 2))
     [Hit 100 \<lparr>stringIndex = 3, fret = 0\<rparr>, AnimationFrame,
      Hit 200 \<lparr>stringIndex = 1, fret = 0\<rparr>, AnimationFrame] =
     \<lparr>stringCount = Four, frets = 0, soundOn = True, currentMidi = Some 38,
      deck = [], lastHitTs = 200, pendingNext = False, frameQueue = [],
      rng = (\<lambda>k. 1 / 2)\<rparr>"
  by (simp add: mount_example onHit_def hit_midi_def js_index_def possibleMidis_Four_0
      animationFrame_def nextTarget_def)

theorem deck_non_repetition_witness:
  "valid_random (\<lambda>k. 1 / 2)
   \<and> deck (run (mount Four 0 True (\<lambda>k. 1 / 2))
        [Hit 100 \<lparr>stringIndex = 3, fret = 0\<rparr>, AnimationFrame,
         Hit 200 \<lparr>stringIndex = 1, fret = 0\<rparr>, AnimationFrame]) = []
   \<and> set [28, 33, 38, 43] = {OPEN_MIDIS Four ! i + int f | i f. i < count_of Four \<and> f \<le> 0}
   \<and> mset (fst (advance_n 4 [28, 33, 38, 43]
        (run (mount Four 0 True (\<lambda>k. 1 / 2))
          [Hit 100 \<lparr>stringIndex = 3, fret = 0\<rparr>, AnimationFrame,
           Hit 200 \<lparr>stringIndex = 1, fret = 0\<rparr>, AnimationFrame])))
       = mset [Some 28, Some 33, Some 38, Some 43]
   \<and> fst (advance_n 4 [28, 33, 38, 43]
        (run (mount Four 0 True (\<lambda>k. 1 / 2))
          [Hit 100 \<lparr>stringIndex = 3, fret = 0\<rparr>, AnimationFrame,
           Hit 200 \<lparr>stringIndex = 1, fret = 0\<rparr>, AnimationFrame]))
       = [Some 28, Some 43, Some 33, Some 38]"
proof -
  let ?es = "[Hit 100 \<lparr>stringIndex = 3, fret = 0\<rparr>, AnimationFrame,
              Hit 200 \<lparr>stringIndex = 1, fret = 0\<rparr>, AnimationFrame]"
  let ?t = "run (mount Four 0 True (\<lambda>k. 1 / 2)) ?es"
  have v: "valid_random (\<lambda>k. 1 / 2)"
    by (simp add: valid_random_def)
  have vt: "valid_random (rng ?t)"
    unfolding run_example by (simp add: valid_random_def)
  have p: "[28, 33, 38, 43] = possibleMidis (stringCount ?t) (frets ?t)"
    unfolding run_example by (simp add: possibleMidis_Four_0)
  have e: "deck ?t = []"
    unfolding run_example by simp
  have f: "stringCount ?t = Four" "frets ?t = 0"
    unfolding run_example by simp_all
  have n4: "4 = length [28, 33, 38, 43 :: int]"
    by simp
  note inst = deck_non_repetition [OF vt p v refl, of Five 0 Four 0 True ?es]
  have r: "set [28, 33, 38, 43] = {OPEN_MIDIS Four ! i + int f | i f. i < count_of Four \<and> f \<le> 0}"
    using inst [THEN conjunct1] unfolding f .
  have "deck ?t = [] \<or> mset (deck ?t) = mset [28, 33, 38, 43] \<longrightarrow>
        set (fst (advance_n (length [28, 33, 38, 43 :: int]) [28, 33, 38, 43] ?t)) =
          Some ` {OPEN_MIDIS (stringCount ?t) ! i + int f | i f.
                    i < count_of (stringCount ?t) \<and> f \<le> frets ?t}
        \<and> distinct (fst (advance_n (length [28, 33, 38, 43 :: int]) [28, 33, 38, 43] ?t))
        \<and> mset (fst (advance_n (length [28, 33, 38, 43 :: int]) [28, 33, 38, 43] ?t))
          = mset (map Some [28, 33, 38, 43])
        \<and> deck (snd (advance_n (length [28, 33, 38, 43 :: int]) [28, 33, 38, 43] ?t)) = []
        \<and> valid_random (rng (snd (advance_n (length [28, 33, 38, 43 :: int]) [28, 33, 38, 43] ?t)))"
    using inst [THEN conjunct2, THEN conjunct2, THEN conjunct1] .
  with e have w: "mset (fst (advance_n (length [28, 33, 38, 43 :: int]) [28, 33, 38, 43] ?t))
      = mset (map Some [28, 33, 38, 43])"
    by blast
  have "fst (advance_n (length [28, 33, 38, 43 :: int]) [28, 33, 38, 43] ?t)
        = map Some (fst (shuffle [28, 33, 38, 43] (rng ?t)))"
    using advance_n_refill [OF e vt, of "[28, 33, 38, 43]"] by (rule conjunct1)
  also have "rng ?t = (\<lambda>k. 1 / 2)"
    unfolding run_example by simp
  finally have x: "fst (advance_n (length [28, 33, 38, 43 :: int]) [28, 33, 38, 43] ?t)
      = [Some 28, Some 43, Some 33, Some 38]"
    by (simp add: shuffle_example)
  have m: "mset (map Some [28, 33, 38, 43 :: int]) = mset [Some 28, Some 33, Some 38, Some 43]"
    by simp
  show ?thesis
    unfolding n4 using v e r w x m by (simp only: simp_thms)
qed

text \<open>
  The claim as the specification states it fails in its middle part: the deck is not
  refilled only when a draw would find it empty. After the first render of a
  four-string board without frets the deck holds two cards; changing to five strings
  replaces it at once by a shuffle of all five reachable pitches and shows no target,
  although the deck was not empty and nothing was drawn.
\<close>

theorem deck_refill_counterexample:
  "deck (mount Four 0 True (\<lambda>k. 1 / 2)) = [33, 38]
   \<and> deck (mount Four 0 True (\<lambda>k. 1 / 2)) \<noteq> []
   \<and> deck (configure Five 0 (mount Four 0 True (\<lambda>k. 1 / 2))) = [23, 38, 28, 43, 33]
   \<and> mset (deck (configure Five 0 (mount Four 0 True (\<lambda>k. 1 / 2)))) = mset (possibleMidis Five 0)
   \<and> currentMidi (configure Five 0 (mount Four 0 True (\<lambda>k. 1 / 2))) = None"
proof -
  let ?m = "mount Four 0 True (\<lambda>k. 1 / 2)"
  have d: "deck ?m = [33, 38]"
    unfolding mount_example by simp
  have c: "configure Five 0 ?m =
      ?m\<lparr>stringCount := Five, frets := 0,
          deck := fst (shuffle (possibleMidis Five 0) (rng ?m)),
          currentMidi := None,
          rng := snd (shuffle (possibleMidis Five 0) (rng ?m))\<rparr>"
    by (rule configure_changed) simp
  have r: "rng ?m = (\<lambda>k. 1 / 2)"
    unfolding mount_example by simp
  have d': "deck (configure Five 0 ?m) = [23, 38, 28, 43, 33]"
    unfolding c by (simp add: r possibleMidis_Five_0 shuffle_example_five)
  have n: "currentMidi (configure Five 0 ?m) = None"
    unfolding c by simp
  show ?thesis
    unfolding d' n d by (simp add: possibleMidis_Five_0)
qed

subsection \<open>The nearest string and the scan over the frets\<close>

lemma nearest_fold:
  "ys \<noteq> [] \<Longrightarrow>
   \<exists>i. fold (nearest_step spy) (zip ys [0..<length ys]) (None, 0) = (Some \<bar>spy - ys ! i\<bar>, i)
     \<and> i < length ys
     \<and> (\<forall>k<length ys. \<bar>spy - ys ! i\<bar> \<le> \<bar>spy - ys ! k\<bar>)
     \<and> (\<forall>k<i. \<bar>spy - ys ! i\<bar> < \<bar>spy - ys ! k\<bar>)"
proof (induction ys rule: rev_induct)
  case Nil
  then show ?case by simp
next
  case (snoc v xs)
  let ?n = "length xs"
  have z: "zip (xs @ [v]) [0..<length (xs @ [v])] = zip xs [0..<?n] @ [(v, ?n)]"
    by simp
  show ?case
  proof (cases "xs = []")
    case True
    then show ?thesis by (simp add: nearest_step_def)
  next
    case False
    from snoc.IH [OF False] obtain i where
      f: "fold (nearest_step spy) (zip xs [0..<?n]) (None, 0) = (Some \<bar>spy - xs ! i\<bar>, i)"
      and i: "i < ?n"
      and least: "\<forall>k<?n. \<bar>spy - xs ! i\<bar> \<le> \<bar>spy - xs ! k\<bar>"
      and first: "\<forall>k<i. \<bar>spy - xs ! i\<bar> < \<bar>spy - xs ! k\<bar>"
      by blast
    show ?thesis
    proof (cases "\<bar>spy - v\<bar> < \<bar>spy - xs ! i\<bar>")
      case True
      have "fold (nearest_step spy) (zip (xs @ [v]) [0..<length (xs @ [v])]) (None, 0)
            = (Some \<bar>spy - (xs @ [v]) ! ?n\<bar>, ?n)"
        unfolding z using True by (simp add: f nearest_step_def)
      moreover have "\<forall>k<length (xs @ [v]). \<bar>spy - (xs @ [v]) ! ?n\<bar> \<le> \<bar>spy - (xs @ [v]) ! k\<bar>"
        using True least by (fastforce simp: nth_append less_Suc_eq)
      moreover have "\<forall>k<?n. \<bar>spy - (xs @ [v]) ! ?n\<bar> < \<bar>spy - (xs @ [v]) ! k\<bar>"
        using True least by (fastforce simp: nth_append)
      ultimately show ?thesis
        by (intro exI [of _ ?n]) simp
    next
      case False
      have "fold (nearest_step spy) (zip (xs @ [v]) [0..<length (xs @ [v])]) (None, 0)
            = (Some \<bar>spy - (xs @ [v]) ! i\<bar>, i)"
        unfolding z using False i by (simp add: f nearest_step_def nth_append)
      moreover have "\<forall>k<length (xs @ [v]). \<bar>spy - (xs @ [v]) ! i\<bar> \<le> \<bar>spy - (xs @ [v]) ! k\<bar>"
        using False least i by (auto simp: nth_append less_Suc_eq)
      moreover have "\<forall>k<i. \<bar>spy - (xs @ [v]) ! i\<bar> < \<bar>spy - (xs @ [v]) ! k\<bar>"
        using first i by (auto simp: nth_append)
      ultimately show ?thesis
        using i by (intro exI [of _ i]) simp
    qed
  qed
qed

lemma nearest_string_props:
  assumes "ys \<noteq> []"
  shows "nearest_string ys spy < length ys"
    and "\<forall>k<length ys. \<bar>spy - ys ! nearest_string ys spy\<bar> \<le> \<bar>spy - ys ! k\<bar>"
    and "\<forall>k<nearest_string ys spy. \<bar>spy - ys ! nearest_string ys spy\<bar> < \<bar>spy - ys ! k\<bar>"
  using nearest_fold [OF assms, of spy] by (auto simp: nearest_string_def)

lemma fret_loop_range:
  "fret_loop xs frts spx n = - 1
   \<or> (int n \<le> fret_loop xs frts spx n \<and> fret_loop xs frts spx n \<le> int frts)"
proof (induction xs frts spx n rule: fret_loop.induct)
  case (1 xs frts spx n)
  show ?case
  proof (cases "n \<le> frts \<and> \<not> in_region xs n spx")
    case True
    then have "fret_loop xs frts spx n = fret_loop xs frts spx (n + 1)"
      by (subst fret_loop.simps) simp
    with "1.IH" True show ?thesis by auto
  next
    case False
    then show ?thesis by (subst (1 2 3) fret_loop.simps) auto
  qed
qed

lemma fret_loop_none:
  "(\<forall>k. n \<le> k \<and> k \<le> frts \<longrightarrow> \<not> in_region xs k spx) \<Longrightarrow> fret_loop xs frts spx n = - 1"
proof (induction xs frts spx n rule: fret_loop.induct)
  case (1 xs frts spx n)
  show ?case
  proof (cases "n \<le> frts")
    case True
    with "1.prems" have no: "\<not> in_region xs n spx" by simp
    have "fret_loop xs frts spx (n + 1) = - 1"
      using "1.IH" [OF True no] "1.prems" by simp
    then show ?thesis
      using True no by (subst fret_loop.simps) simp
  next
    case False
    then show ?thesis by (subst fret_loop.simps) simp
  qed
qed

lemma fret_loop_first:
  "n \<le> m \<Longrightarrow> m \<le> frts \<Longrightarrow> in_region xs m spx \<Longrightarrow>
   (\<forall>k. n \<le> k \<and> k < m \<longrightarrow> \<not> in_region xs k spx) \<Longrightarrow>
   fret_loop xs frts spx n = int m"
proof (induction xs frts spx n rule: fret_loop.induct)
  case (1 xs frts spx n)
  show ?case
  proof (cases "n = m")
    case True
    then show ?thesis
      using "1.prems" by (subst fret_loop.simps) simp
  next
    case False
    with "1.prems" have lt: "n < m" and le: "n \<le> frts" and no: "\<not> in_region xs n spx"
      by simp_all
    have "fret_loop xs frts spx (n + 1) = int m"
      using "1.IH" [OF le no] lt "1.prems" by simp
    then show ?thesis
      using le no by (subst fret_loop.simps) simp
  qed
qed

lemma fret_loop_found:
  "fret_loop xs frts spx n \<noteq> - 1 \<Longrightarrow>
   \<exists>m. fret_loop xs frts spx n = int m \<and> n \<le> m \<and> m \<le> frts \<and> in_region xs m spx
       \<and> (\<forall>k. n \<le> k \<and> k < m \<longrightarrow> \<not> in_region xs k spx)"
proof (induction xs frts spx n rule: fret_loop.induct)
  case (1 xs frts spx n)
  have le: "n \<le> frts"
    using "1.prems" by (subst (asm) fret_loop.simps) (simp split: if_splits)
  show ?case
  proof (cases "in_region xs n spx")
    case True
    then have "fret_loop xs frts spx n = int n"
      using le by (subst fret_loop.simps) simp
    with True le show ?thesis by auto
  next
    case False
    then have eq: "fret_loop xs frts spx n = fret_loop xs frts spx (n + 1)"
      using le by (subst fret_loop.simps) simp
    with "1.prems" have "fret_loop xs frts spx (n + 1) \<noteq> - 1" by simp
    from "1.IH" [OF le False this] obtain m where
      m: "fret_loop xs frts spx (n + 1) = int m" "n + 1 \<le> m" "m \<le> frts" "in_region xs m spx"
        "\<forall>k. n + 1 \<le> k \<and> k < m \<longrightarrow> \<not> in_region xs k spx"
      by blast
    have "\<forall>k. n \<le> k \<and> k < m \<longrightarrow> \<not> in_region xs k spx"
    proof (intro allI impI)
      fix k assume "n \<le> k \<and> k < m"
      then show "\<not> in_region xs k spx"
        using False m(5) by (cases "k = n") auto
    qed
    with m eq show ?thesis by (intro exI [of _ m]) simp
  qed
qed

subsection \<open>Board geometry; the regions of the hit test\<close>

lemma pad_eq: "pad = 4"
proof -
  have "\<lceil>(5::real) / 2\<rceil> = 3" by linarith
  then show ?thesis by (simp add: pad_def FRET_WIDTH_def)
qed

lemma length_stringYs: "length (stringYs sc binding) = sc"
  by (simp add: stringYs_def)

lemma length_fretXs: "length (fretXs frts) = frts + 1"
  by (simp add: fretXs_def Let_def)

lemma fretXs_nth:
  assumes "n \<le> frts"
  shows "fretXs frts ! n =
           nutWidth + (scaleLength - scaleLength / 2 powr (real n / 12))
             * ((width - marginRight - nutWidth) / (scaleLength - scaleLength / 2 powr (real frts / 12)))"
proof -
  let ?d = "\<lambda>n::nat. scaleLength - scaleLength / 2 powr (real n / 12)"
  have d0: "?d 0 = 0" by simp
  have "[0..<Suc frts] = 0 # [1..<Suc frts]"
    by (simp add: upt_conv_Cons)
  then have xs: "0 # map ?d [1..<Suc frts] = map ?d [0..<Suc frts]"
    using d0 by simp
  have l: "last (map ?d [0..<Suc frts]) = ?d frts"
    by (simp add: last_map)
  have "fretXs frts = map (\<lambda>x. nutWidth + x * ((width - marginRight - nutWidth) / ?d frts))
      (map ?d [0..<Suc frts])"
    unfolding fretXs_def xs Let_def l ..
  then show ?thesis
    using assms by (simp add: nth_map_upt del: upt_Suc)
qed

lemma fretXs_0: "fretXs frts ! 0 = nutWidth"
  by (simp add: fretXs_nth)

lemma fretXs_strict_mono:
  assumes "n < m" "m \<le> frts"
  shows "fretXs frts ! n < fretXs frts ! m"
proof -
  let ?d = "\<lambda>n::nat. scaleLength - scaleLength / 2 powr (real n / 12)"
  have mono: "?d i < ?d j" if "i < j" for i j :: nat
  proof -
    have "(2::real) powr (real i / 12) < 2 powr (real j / 12)"
      using that by (intro powr_less_mono) simp_all
    then have "scaleLength / 2 powr (real j / 12) < scaleLength / 2 powr (real i / 12)"
      by (intro divide_strict_left_mono) (simp_all add: scaleLength_def)
    then show ?thesis by simp
  qed
  have "0 < frts" using assms by simp
  then have "?d 0 < ?d frts" by (rule mono)
  then have pos: "0 < (width - marginRight - nutWidth) / ?d frts"
    by (simp add: width_def marginRight_def nutWidth_def)
  have "?d n * ((width - marginRight - nutWidth) / ?d frts)
        < ?d m * ((width - marginRight - nutWidth) / ?d frts)"
    using mono [OF assms(1)] pos by (rule mult_strict_right_mono)
  then show ?thesis
    using assms by (simp add: fretXs_nth)
qed

text \<open>Regions lie between their boundaries, so increasing boundaries keep them apart.\<close>

lemma fret_region_eq:
  assumes "1 \<le> n" "n < length xs"
  shows "fret_region xs n =
           Some (if xs ! n - xs ! (n - 1) > pad * 2
                 then (xs ! (n - 1) + pad, xs ! n - pad) else (xs ! (n - 1), xs ! n))"
proof -
  have "nat (int n - 1) = n - 1" by simp
  then show ?thesis
    using assms by (simp add: fret_region_def js_index_def)
qed

lemma in_region_bounds:
  assumes "1 \<le> n" "n < length xs" "in_region xs n spx"
  shows "xs ! (n - 1) \<le> spx \<and> spx < xs ! n"
  using assms(3) unfolding in_region_def fret_region_eq [OF assms(1,2)] pad_eq
  by (simp split: if_splits)

lemma in_region_unique:
  assumes inc: "\<forall>i j. i < j \<and> j \<le> frts \<longrightarrow> xs ! i < xs ! j"
    and len: "frts < length xs"
    and n: "1 \<le> n" "n \<le> frts" "in_region xs n spx"
    and m: "1 \<le> m" "m \<le> frts" "in_region xs m spx"
  shows "n = m"
proof (rule ccontr)
  assume ne: "n \<noteq> m"
  have bn: "xs ! (n - 1) \<le> spx \<and> spx < xs ! n"
    using n len by (intro in_region_bounds) simp_all
  have bm: "xs ! (m - 1) \<le> spx \<and> spx < xs ! m"
    using m len by (intro in_region_bounds) simp_all
  show False
  proof (cases "n < m")
    case True
    then have "xs ! n \<le> xs ! (m - 1)"
      using inc m(2) by (cases "n = m - 1") (auto simp: less_imp_le)
    with bn bm show False by simp
  next
    case False
    with ne have lt: "m < n" by simp
    then have "xs ! m \<le> xs ! (n - 1)"
      using inc n(2) by (cases "m = n - 1") (auto simp: less_imp_le)
    with bn bm show False by simp
  qed
qed

lemma pickHit_open:
  assumes "point_x sp \<le> nutWidth + openPad
             + min 24 (((case js_index xs 1 of Some v \<Rightarrow> v | None \<Rightarrow> nutWidth + 60) - nutWidth) * 0.25)"
  shows "pickHit ys xs frts sp = Some \<lparr>stringIndex = int (nearest_string ys (point_y sp)), fret = 0\<rparr>"
  using assms by (simp add: pickHit_def Let_def)

lemma pickHit_beyond:
  assumes "\<not> point_x sp \<le> nutWidth + openPad
             + min 24 (((case js_index xs 1 of Some v \<Rightarrow> v | None \<Rightarrow> nutWidth + 60) - nutWidth) * 0.25)"
  shows "pickHit ys xs frts sp =
           (if fret_loop xs frts (point_x sp) 1 = - 1 then None
            else Some \<lparr>stringIndex = int (nearest_string ys (point_y sp)),
                       fret = fret_loop xs frts (point_x sp) 1\<rparr>)"
  using assms by (simp add: pickHit_def Let_def)

lemma pickHit_range:
  assumes "ys \<noteq> []" "pickHit ys xs frts sp = Some t"
  shows "0 \<le> stringIndex t \<and> stringIndex t < int (length ys) \<and> 0 \<le> fret t \<and> fret t \<le> int frts"
proof -
  have s: "nearest_string ys (point_y sp) < length ys"
    using assms(1) by (rule nearest_string_props)
  show ?thesis
  proof (cases "point_x sp \<le> nutWidth + openPad
             + min 24 (((case js_index xs 1 of Some v \<Rightarrow> v | None \<Rightarrow> nutWidth + 60) - nutWidth) * 0.25)")
    case True
    from pickHit_open [OF True] assms(2) s show ?thesis by auto
  next
    case False
    from pickHit_beyond [OF False] assms(2) have
      "fret_loop xs frts (point_x sp) 1 \<noteq> - 1"
      and t: "t = \<lparr>stringIndex = int (nearest_string ys (point_y sp)),
                   fret = fret_loop xs frts (point_x sp) 1\<rparr>"
      by (auto split: if_splits)
    with fret_loop_range [of xs frts "point_x sp" 1] s show ?thesis by auto
  qed
qed

subsection \<open>Cells are in range; the open-string zone\<close>

text \<open>
  Claim C10. On a board with at least one string and at least one fret the hit test
  returns either no match or a cell whose string index lies in \<open>[0, StringCount)\<close> and
  whose fret lies in \<open>[0, FretCount]\<close>, for every point.
\<close>

theorem pickHit_in_range:
  assumes "1 \<le> sc" and "1 \<le> frts"
  shows "Fretboard_pickHit sc frts binding sp = None
         \<or> (\<exists>t. Fretboard_pickHit sc frts binding sp = Some t
               \<and> 0 \<le> stringIndex t \<and> stringIndex t < int sc
               \<and> 0 \<le> fret t \<and> fret t \<le> int frts)"
proof (cases "Fretboard_pickHit sc frts binding sp")
  case None
  then show ?thesis by simp
next
  case (Some t)
  have "stringYs sc binding \<noteq> []"
    using assms(1) length_stringYs [of sc binding] by auto
  from pickHit_range [OF this Some [unfolded Fretboard_pickHit_def]] Some
  show ?thesis by (simp add: length_stringYs)
qed

theorem pickHit_in_range_witness:
  "(1::nat) \<le> 4 \<and> (1::nat) \<le> 12
   \<and> Fretboard_pickHit 4 12 False \<lparr>point_x = 5, point_y = 30\<rparr> \<noteq> None
   \<and> 0 \<le> stringIndex (the (Fretboard_pickHit 4 12 False \<lparr>point_x = 5, point_y = 30\<rparr>))
   \<and> stringIndex (the (Fretboard_pickHit 4 12 False \<lparr>point_x = 5, point_y = 30\<rparr>)) < 4
   \<and> fret (the (Fretboard_pickHit 4 12 False \<lparr>point_x = 5, point_y = 30\<rparr>)) = 0"
proof -
  let ?sp = "\<lparr>point_x = 5, point_y = 30\<rparr>"
  have h: "(1::nat) \<le> 4" "(1::nat) \<le> 12" by simp_all
  have "fretXs 12 ! 0 < fretXs 12 ! 1"
    by (rule fretXs_strict_mono) simp_all
  then have "point_x ?sp \<le> nutWidth + openPad
      + min 24 (((case js_index (fretXs 12) 1 of Some v \<Rightarrow> v | None \<Rightarrow> nutWidth + 60) - nutWidth) * 0.25)"
    by (simp add: js_index_def length_fretXs fretXs_0 nutWidth_def openPad_def)
  from pickHit_open [OF this]
  have f: "fret (the (Fretboard_pickHit 4 12 False ?sp)) = 0"
    "Fretboard_pickHit 4 12 False ?sp \<noteq> None"
    by (simp_all add: Fretboard_pickHit_def)
  with pickHit_in_range [OF h, of False ?sp] h show ?thesis
    by auto
qed

text \<open>
  Claim C8. On a board with at least one string and one fret, a point whose \<open>x\<close> is at
  most nut width + open pad + grace, where the grace is the smaller of 24 and a quarter
  of the width of the first fret, resolves to fret 0 on the nearest string: the string
  of least vertical distance, and the lowest index among equally near ones. The frets
  are not looked at.
\<close>

theorem pickHit_open_zone:
  assumes "1 \<le> sc" and "1 \<le> frts"
    and "point_x sp \<le> nutWidth + openPad + min 24 (0.25 * (fretXs frts ! 1 - fretXs frts ! 0))"
  shows "\<exists>i<sc. Fretboard_pickHit sc frts binding sp = Some \<lparr>stringIndex = int i, fret = 0\<rparr>
           \<and> (\<forall>k<sc. \<bar>point_y sp - stringYs sc binding ! i\<bar> \<le> \<bar>point_y sp - stringYs sc binding ! k\<bar>)
           \<and> (\<forall>k<i. \<bar>point_y sp - stringYs sc binding ! i\<bar> < \<bar>point_y sp - stringYs sc binding ! k\<bar>)"
proof -
  let ?ys = "stringYs sc binding"
  let ?i = "nearest_string ?ys (point_y sp)"
  have ne: "?ys \<noteq> []"
    using assms(1) length_stringYs [of sc binding] by auto
  have first: "js_index (fretXs frts) 1 = Some (fretXs frts ! 1)"
    using assms(2) by (simp add: js_index_def length_fretXs)
  have "point_x sp \<le> nutWidth + openPad
      + min 24 (((case js_index (fretXs frts) 1 of Some v \<Rightarrow> v | None \<Rightarrow> nutWidth + 60) - nutWidth) * 0.25)"
    using assms(3) by (simp add: first fretXs_0 mult.commute)
  from pickHit_open [OF this]
  have "Fretboard_pickHit sc frts binding sp = Some \<lparr>stringIndex = int ?i, fret = 0\<rparr>"
    by (simp add: Fretboard_pickHit_def)
  with nearest_string_props [OF ne, of "point_y sp"] show ?thesis
    by (intro exI [of _ ?i]) (simp add: length_stringYs)
qed

lemma stringYs_4: "stringYs 4 False = [200, 424 / 3, 248 / 3, 24]"
  by (simp add: stringYs_def boardHeight_def boardTopY_def paddingY_def heightPerString_def upt_rec)

theorem pickHit_open_zone_witness:
  "(1::nat) \<le> 4 \<and> (1::nat) \<le> 12
   \<and> point_x \<lparr>point_x = 28, point_y = 100\<rparr>
       \<le> nutWidth + openPad + min 24 (0.25 * (fretXs 12 ! 1 - fretXs 12 ! 0))
   \<and> Fretboard_pickHit 4 12 False \<lparr>point_x = 28, point_y = 100\<rparr> = Some \<lparr>stringIndex = 2, fret = 0\<rparr>"
proof -
  let ?sp = "\<lparr>point_x = 28, point_y = 100\<rparr>"
  have h: "(1::nat) \<le> 4" "(1::nat) \<le> 12" by simp_all
  have "fretXs 12 ! 0 < fretXs 12 ! 1"
    by (rule fretXs_strict_mono) simp_all
  then have x: "point_x ?sp \<le> nutWidth + openPad + min 24 (0.25 * (fretXs 12 ! 1 - fretXs 12 ! 0))"
    by (simp add: nutWidth_def openPad_def)
  from pickHit_open_zone [OF h x, of False] obtain i where
    i: "i < 4" "Fretboard_pickHit 4 12 False ?sp = Some \<lparr>stringIndex = int i, fret = 0\<rparr>"
    and least: "\<forall>k<4. \<bar>point_y ?sp - stringYs 4 False ! i\<bar> \<le> \<bar>point_y ?sp - stringYs 4 False ! k\<bar>"
    by blast
  from least have "\<bar>point_y ?sp - stringYs 4 False ! i\<bar> \<le> \<bar>point_y ?sp - stringYs 4 False ! 2\<bar>"
    by simp
  with i(1) have "i = 2"
    unfolding stringYs_4 by (auto simp: less_Suc_eq numeral_eq_Suc)
  with i h x show ?thesis by simp
qed

subsection \<open>Fret regions on the board\<close>

lemma fretXs_increasing: "\<forall>i j. i < j \<and> j \<le> frts \<longrightarrow> fretXs frts ! i < fretXs frts ! j"
  by (simp add: fretXs_strict_mono)

lemma fretXs_region_index:
  assumes k: "1 \<le> k" "k \<le> frts" "in_region (fretXs frts) k spx"
    and n: "n \<le> frts"
  shows "fretXs frts ! n \<le> spx \<longrightarrow> n < k" and "spx < fretXs frts ! n \<longrightarrow> k \<le> n"
proof -
  have b: "fretXs frts ! (k - 1) \<le> spx \<and> spx < fretXs frts ! k"
    using k by (intro in_region_bounds) (simp_all add: length_fretXs)
  show "fretXs frts ! n \<le> spx \<longrightarrow> n < k"
  proof (intro impI, rule ccontr)
    assume a: "fretXs frts ! n \<le> spx" "\<not> n < k"
    then have "k = n \<or> (k < n \<and> n \<le> frts)"
      using n by auto
    then have "fretXs frts ! k \<le> fretXs frts ! n"
      using fretXs_strict_mono [of k n frts] by (auto simp: less_imp_le)
    with a b show False by simp
  qed
  show "spx < fretXs frts ! n \<longrightarrow> k \<le> n"
  proof (intro impI, rule ccontr)
    assume a: "spx < fretXs frts ! n" "\<not> k \<le> n"
    then have "n = k - 1 \<or> (n < k - 1 \<and> k - 1 \<le> frts)"
      using k by auto
    then have "fretXs frts ! n \<le> fretXs frts ! (k - 1)"
      using fretXs_strict_mono [of n "k - 1" frts] by (auto simp: less_imp_le)
    with a b show False by simp
  qed
qed

lemma Fretboard_scan_hit:
  assumes "1 \<le> n" "n \<le> frts" "in_region (fretXs frts) n spx"
  shows "fret_loop (fretXs frts) frts spx 1 = int n"
proof (rule fret_loop_first [OF assms])
  show "\<forall>k. 1 \<le> k \<and> k < n \<longrightarrow> \<not> in_region (fretXs frts) k spx"
  proof (intro allI impI notI)
    fix k assume k: "1 \<le> k \<and> k < n" and r: "in_region (fretXs frts) k spx"
    have "k = n"
      using fretXs_increasing _ _ _ r assms
      by (rule in_region_unique) (use k assms in \<open>simp_all add: length_fretXs\<close>)
    with k show False by simp
  qed
qed

lemma Fretboard_beyond:
  assumes "1 \<le> frts"
    and "nutWidth + openPad + min 24 (0.25 * (fretXs frts ! 1 - fretXs frts ! 0)) < point_x sp"
  shows "Fretboard_pickHit sc frts binding sp =
           (if fret_loop (fretXs frts) frts (point_x sp) 1 = - 1 then None
            else Some \<lparr>stringIndex = int (nearest_string (stringYs sc binding) (point_y sp)),
                       fret = fret_loop (fretXs frts) frts (point_x sp) 1\<rparr>)"
proof -
  have first: "js_index (fretXs frts) 1 = Some (fretXs frts ! 1)"
    using assms(1) by (simp add: js_index_def length_fretXs)
  have "\<not> point_x sp \<le> nutWidth + openPad
      + min 24 (((case js_index (fretXs frts) 1 of Some v \<Rightarrow> v | None \<Rightarrow> nutWidth + 60) - nutWidth) * 0.25)"
    using assms(2) by (simp add: first fretXs_0 mult.commute)
  from pickHit_beyond [OF this] show ?thesis
    by (simp add: Fretboard_pickHit_def)
qed

lemma Fretboard_in_region:
  assumes "1 \<le> frts"
    and "nutWidth + openPad + min 24 (0.25 * (fretXs frts ! 1 - fretXs frts ! 0)) < point_x sp"
    and "1 \<le> n" "n \<le> frts" "in_region (fretXs frts) n (point_x sp)"
  shows "Fretboard_pickHit sc frts binding sp =
           Some \<lparr>stringIndex = int (nearest_string (stringYs sc binding) (point_y sp)), fret = int n\<rparr>"
  using Fretboard_beyond [OF assms(1,2)] Fretboard_scan_hit [OF assms(3-5)] assms(3) by simp

lemma Fretboard_no_region:
  assumes "1 \<le> frts"
    and "nutWidth + openPad + min 24 (0.25 * (fretXs frts ! 1 - fretXs frts ! 0)) < point_x sp"
    and "\<forall>k. 1 \<le> k \<and> k \<le> frts \<longrightarrow> \<not> in_region (fretXs frts) k (point_x sp)"
  shows "Fretboard_pickHit sc frts binding sp = None"
  using Fretboard_beyond [OF assms(1,2)] fret_loop_none [OF assms(3)] by simp

lemma Fretboard_padded_boundary:
  assumes "1 \<le> frts"
    and "nutWidth + openPad + min 24 (0.25 * (fretXs frts ! 1 - fretXs frts ! 0)) < point_x sp"
    and "n < frts" "point_x sp = fretXs frts ! n"
    and "fretXs frts ! (n + 1) - fretXs frts ! n > 8"
  shows "Fretboard_pickHit sc frts binding sp = None"
proof (rule Fretboard_no_region [OF assms(1,2)], intro allI impI notI)
  fix k assume k: "1 \<le> k \<and> k \<le> frts" and r: "in_region (fretXs frts) k (point_x sp)"
  have "n < k" "k \<le> n + 1"
    using fretXs_region_index [of k frts "point_x sp" n]
      fretXs_region_index [of k frts "point_x sp" "n + 1"]
      fretXs_strict_mono [of n "n + 1" frts] k r assms(3,4) by simp_all
  then have "k = n + 1" by simp
  with r have "in_region (fretXs frts) (n + 1) (fretXs frts ! n)"
    using assms(4) by simp
  then show False
    using assms(3,5) unfolding in_region_def
    by (subst (asm) fret_region_eq) (simp_all add: length_fretXs pad_eq)
qed

lemma Fretboard_last_boundary:
  assumes "1 \<le> frts"
    and "nutWidth + openPad + min 24 (0.25 * (fretXs frts ! 1 - fretXs frts ! 0)) < point_x sp"
    and "fretXs frts ! frts \<le> point_x sp"
  shows "Fretboard_pickHit sc frts binding sp = None"
proof (rule Fretboard_no_region [OF assms(1,2)], intro allI impI notI)
  fix k assume k: "1 \<le> k \<and> k \<le> frts" and r: "in_region (fretXs frts) k (point_x sp)"
  have "frts < k"
    using fretXs_region_index(1) [of k frts "point_x sp" frts] k r assms(3) by simp
  with k show False by simp
qed

text \<open>
  Claim C5, as the code has it. Take a board with at least one string and one fret and
  a point beyond the open-string zone. The region of fret \<open>n\<close> is the half-open
  interval \<open>[x0, x1)\<close> with \<open>x0 = boundary (n - 1) + 4\<close> and \<open>x1 = boundary n - 4\<close> when the
  two boundaries are more than 8 apart, and \<open>[boundary (n - 1), boundary n)\<close> otherwise.
  A point inside the region of fret \<open>n\<close> resolves to fret \<open>n\<close> on the nearest string
  (so the lower edge of a region belongs to it and the upper edge does not), and a
  point inside no region is no match. Hence a point exactly at boundary \<open>n\<close> with
  \<open>1 \<le> n < FretCount\<close> is no match when the next region is padded, and belongs to fret
  \<open>n + 1\<close> only when that region is too narrow for the padding; a point at or beyond
  the last boundary is no match; and a point before the first fret boundary resolves to
  fret 1 if it lies in the padded region of fret 1 and is no match otherwise.
\<close>

theorem pickHit_fret_regions:
  assumes "1 \<le> sc" and "1 \<le> frts"
    and "nutWidth + openPad + min 24 (0.25 * (fretXs frts ! 1 - fretXs frts ! 0)) < point_x sp"
  shows "(\<forall>n. 1 \<le> n \<and> n \<le> frts \<longrightarrow>
            fret_region (fretXs frts) n =
              Some (if fretXs frts ! n - fretXs frts ! (n - 1) > 8
                    then (fretXs frts ! (n - 1) + 4, fretXs frts ! n - 4)
                    else (fretXs frts ! (n - 1), fretXs frts ! n)))
         \<and> (\<forall>n lo hi. 1 \<le> n \<and> n \<le> frts \<and> fret_region (fretXs frts) n = Some (lo, hi)
                \<and> lo \<le> point_x sp \<and> point_x sp < hi \<longrightarrow>
              Fretboard_pickHit sc frts binding sp =
                Some \<lparr>stringIndex = int (nearest_string (stringYs sc binding) (point_y sp)),
                      fret = int n\<rparr>)
         \<and> ((\<forall>n lo hi. 1 \<le> n \<and> n \<le> frts \<and> fret_region (fretXs frts) n = Some (lo, hi) \<longrightarrow>
                \<not> (lo \<le> point_x sp \<and> point_x sp < hi)) \<longrightarrow>
              Fretboard_pickHit sc frts binding sp = None)
         \<and> (\<forall>n. 1 \<le> n \<and> n < frts \<and> point_x sp = fretXs frts ! n \<longrightarrow>
              Fretboard_pickHit sc frts binding sp =
                (if fretXs frts ! (n + 1) - fretXs frts ! n > 8 then None
                 else Some \<lparr>stringIndex = int (nearest_string (stringYs sc binding) (point_y sp)),
                            fret = int n + 1\<rparr>))
         \<and> (fretXs frts ! frts \<le> point_x sp \<longrightarrow> Fretboard_pickHit sc frts binding sp = None)
         \<and> (point_x sp < fretXs frts ! 1 \<longrightarrow>
              Fretboard_pickHit sc frts binding sp =
                (if in_region (fretXs frts) 1 (point_x sp)
                 then Some \<lparr>stringIndex = int (nearest_string (stringYs sc binding) (point_y sp)),
                            fret = 1\<rparr>
                 else None))"
proof -
  let ?b = "fretXs frts"
  let ?x = "point_x sp"
  let ?cell = "\<lambda>n. Some \<lparr>stringIndex = int (nearest_string (stringYs sc binding) (point_y sp)),
                            fret = n\<rparr>"
  note beyond = assms(2,3)
  have regions: "fret_region ?b n =
      Some (if ?b ! n - ?b ! (n - 1) > 8 then (?b ! (n - 1) + 4, ?b ! n - 4) else (?b ! (n - 1), ?b ! n))"
    if "1 \<le> n \<and> n \<le> frts" for n
    using that by (subst fret_region_eq) (simp_all add: length_fretXs pad_eq)
  have inside: "Fretboard_pickHit sc frts binding sp = ?cell (int n)"
    if "1 \<le> n \<and> n \<le> frts \<and> fret_region ?b n = Some (lo, hi) \<and> lo \<le> ?x \<and> ?x < hi" for n lo hi
  proof -
    from that have "in_region ?b n ?x" by (simp add: in_region_def)
    with that show ?thesis by (intro Fretboard_in_region [OF beyond]) simp_all
  qed
  have outside: "Fretboard_pickHit sc frts binding sp = None"
    if no: "\<forall>n lo hi. 1 \<le> n \<and> n \<le> frts \<and> fret_region ?b n = Some (lo, hi) \<longrightarrow>
              \<not> (lo \<le> ?x \<and> ?x < hi)"
  proof (rule Fretboard_no_region [OF beyond], intro allI impI notI)
    fix k assume k: "1 \<le> k \<and> k \<le> frts" and r: "in_region ?b k ?x"
    from r obtain lo hi where "fret_region ?b k = Some (lo, hi)" "lo \<le> ?x \<and> ?x < hi"
      by (auto simp: in_region_def split: option.splits)
    with no k show False by blast
  qed
  have boundary: "Fretboard_pickHit sc frts binding sp =
      (if ?b ! (n + 1) - ?b ! n > 8 then None else ?cell (int n + 1))"
    if n: "1 \<le> n \<and> n < frts \<and> ?x = ?b ! n" for n
  proof (cases "?b ! (n + 1) - ?b ! n > 8")
    case True
    have "Fretboard_pickHit sc frts binding sp = None"
      using n True by (intro Fretboard_padded_boundary [OF beyond, of n]) simp_all
    with True show ?thesis by simp
  next
    case False
    have "?b ! n < ?b ! (n + 1)"
      using n by (intro fretXs_strict_mono) simp_all
    then have "in_region ?b (n + 1) ?x"
      using n False unfolding in_region_def
      by (subst fret_region_eq) (simp_all add: length_fretXs pad_eq)
    from Fretboard_in_region [OF beyond _ _ this, of sc binding] n False
    show ?thesis by simp
  qed
  have last: "Fretboard_pickHit sc frts binding sp = None" if "?b ! frts \<le> ?x"
    using that by (rule Fretboard_last_boundary [OF beyond])
  have before: "Fretboard_pickHit sc frts binding sp =
      (if in_region ?b 1 ?x then ?cell 1 else None)"
    if x: "?x < ?b ! 1"
  proof (cases "in_region ?b 1 ?x")
    case True
    from Fretboard_in_region [OF beyond _ _ True, of sc binding] assms(2) True
    show ?thesis by simp
  next
    case False
    have "Fretboard_pickHit sc frts binding sp = None"
    proof (rule Fretboard_no_region [OF beyond], intro allI impI notI)
      fix k assume k: "1 \<le> k \<and> k \<le> frts" and r: "in_region ?b k ?x"
      have "k \<le> 1"
        using fretXs_region_index(2) [of k frts ?x 1] k r x assms(2) by simp
      with k r False show False by simp
    qed
    with False show ?thesis by simp
  qed
  show ?thesis
    using regions inside outside boundary last before by (intro conjI) blast+
qed

lemma twelfth_root_lower: "130 / 129 < (2::real) powr (1 / 12)"
proof (rule ccontr)
  assume "\<not> 130 / 129 < (2::real) powr (1 / 12)"
  then have le: "(2::real) powr (1 / 12) \<le> 130 / 129" by simp
  have "((2::real) powr (1 / 12)) ^ 12 \<le> (130 / 129) ^ 12"
    using le by (intro power_mono) simp_all
  moreover have "((2::real) powr (1 / 12)) ^ 12 = 2"
    by (simp add: powr_power)
  moreover have "((130::real) / 129) ^ 12 < 2"
    by (simp add: power_divide)
  ultimately show False by simp
qed

lemma fretXs_24_12: "fretXs 24 ! 12 = 1050"
  by (simp add: fretXs_nth nutWidth_def scaleLength_def width_def marginRight_def)

lemma fretXs_24_13: "1058 < fretXs 24 ! 13"
proof -
  let ?r = "(2::real) powr (1 / 12)"
  have r: "130 / 129 < ?r" by (rule twelfth_root_lower)
  then have pos: "0 < ?r" by simp
  have "(13::real) / 12 = 1 + 1 / 12" by simp
  then have "(2::real) powr (13 / 12) = 2 powr (1 + 1 / 12)" by simp
  also have "\<dots> = 2 * ?r" by (subst powr_add) simp
  finally have p: "(2::real) powr (13 / 12) = 2 * ?r" .
  have "1 / ?r < 129 / 130"
    using r pos by (simp add: field_simps)
  then have "1058 < 10 + (1000 - 500 * (1 / ?r)) * (1560 / 750)"
    by simp
  also have "\<dots> = fretXs 24 ! 13"
    by (simp add: fretXs_nth p nutWidth_def scaleLength_def width_def marginRight_def)
  finally show ?thesis .
qed

lemma beyond_open_zone:
  assumes "52 < point_x sp"
  shows "nutWidth + openPad + min 24 (0.25 * (fretXs frts ! 1 - fretXs frts ! 0)) < point_x sp"
proof -
  have "min 24 (0.25 * (fretXs frts ! 1 - fretXs frts ! 0)) \<le> (24::real)"
    by (rule min.cobounded1)
  with assms show ?thesis
    unfolding nutWidth_def openPad_def by linarith
qed

lemma nearest_string_example: "nearest_string (stringYs 4 False) 100 = 2"
  by (simp add: stringYs_4 nearest_string_def nearest_step_def upt_rec)

text \<open>
  The claim as the specification states it fails. On the 24-fret board the boundary
  of fret 12 is at \<open>x = 1050\<close>; the regions of frets 12 and 13 are both padded, so the
  point \<open>(1050, 100)\<close> lies in neither and the hit test returns no match, where the
  specification assigns the point to fret 13.
\<close>

theorem pickHit_fret_boundary_counterexample:
  "fretXs 24 ! 12 = 1050
   \<and> Fretboard_pickHit 4 24 False \<lparr>point_x = 1050, point_y = 100\<rparr> = None
   \<and> Fretboard_pickHit 4 24 False \<lparr>point_x = 1050, point_y = 100\<rparr>
       \<noteq> Some \<lparr>stringIndex = 2, fret = 13\<rparr>"
proof -
  let ?sp = "\<lparr>point_x = 1050, point_y = 100\<rparr>"
  have b: "nutWidth + openPad + min 24 (0.25 * (fretXs 24 ! 1 - fretXs 24 ! 0)) < point_x ?sp"
    by (rule beyond_open_zone) simp
  have "Fretboard_pickHit 4 24 False ?sp = None"
    using fretXs_24_13 by (intro Fretboard_padded_boundary [OF _ b, of 12]) (simp_all add: fretXs_24_12)
  then show ?thesis by (simp add: fretXs_24_12)
qed

theorem pickHit_fret_regions_witness:
  "(1::nat) \<le> 4 \<and> (1::nat) \<le> 24
   \<and> nutWidth + openPad + min 24 (0.25 * (fretXs 24 ! 1 - fretXs 24 ! 0))
       < point_x \<lparr>point_x = 1054, point_y = 100\<rparr>
   \<and> Fretboard_pickHit 4 24 False \<lparr>point_x = 1054, point_y = 100\<rparr>
       = Some \<lparr>stringIndex = 2, fret = 13\<rparr>"
proof -
  let ?sp = "\<lparr>point_x = 1054, point_y = 100\<rparr>"
  have h: "(1::nat) \<le> 4" "(1::nat) \<le> 24" by simp_all
  have b: "nutWidth + openPad + min 24 (0.25 * (fretXs 24 ! 1 - fretXs 24 ! 0)) < point_x ?sp"
    by (rule beyond_open_zone) simp
  note t = pickHit_fret_regions [OF h b, of False]
  have "fret_region (fretXs 24) 13 = Some (1054, fretXs 24 ! 13 - 4)"
    using t [THEN conjunct1, rule_format, of 13] fretXs_24_13 by (simp add: fretXs_24_12)
  then have "Fretboard_pickHit 4 24 False ?sp =
      Some \<lparr>stringIndex = int (nearest_string (stringYs 4 False) (point_y ?sp)), fret = int 13\<rparr>"
    using t [THEN conjunct2, THEN conjunct1, rule_format, of 13 1054 "fretXs 24 ! 13 - 4"]
      fretXs_24_13 by simp
  then show ?thesis
    using h b by (simp add: nearest_string_example)
qed

end
